theory Spec2Isabelle
  imports Complex_Main "HOL-Library.Word" "HOL-Library.Signed_Division" "HOL-Library.AList"
    "HOL-Library.Char_ord" "HOL-Library.List_Lexorder"
begin

section \<open>Go primitives used by the pipeline\<close>

text \<open>
  An instant (\<open>time.Time\<close>) is an integer count of nanoseconds since the Unix epoch; a
  \<open>time.Duration\<close> is a signed 64-bit count of nanoseconds.  Arithmetic on durations and
  on Go's \<open>int\<close> (64 bits on the supported platforms) wraps around; \<open>Time.Sub\<close> saturates
  at the least and greatest duration, as the Go library documents.
\<close>

type_synonym time = int
type_synonym duration = int

definition int64 :: "int \<Rightarrow> int" where
  "int64 x = signed_take_bit 63 x"

definition minDuration :: duration where
  "minDuration = - (2 ^ 63)"

definition maxDuration :: duration where
  "maxDuration = 2 ^ 63 - 1"

definition Second :: duration where
  "Second = 1000000000"

text \<open>\<open>time.Duration(n) * time.Second\<close> for a Go \<open>int\<close> \<open>n\<close>.\<close>
definition seconds :: "int \<Rightarrow> duration" where
  "seconds n = int64 (n * Second)"

text \<open>\<open>t.Sub(u)\<close>.\<close>
definition time_Sub :: "time \<Rightarrow> time \<Rightarrow> duration" where
  "time_Sub t u = max minDuration (min maxDuration (t - u))"

text \<open>\<open>t.Add(d)\<close>.\<close>
definition time_Add :: "time \<Rightarrow> duration \<Rightarrow> time" where
  "time_Add t d = t + d"

text \<open>The zero value of \<open>time.Time\<close>: 1 January of year 1, 00:00:00 UTC.\<close>
definition zeroTime :: time where
  "zeroTime = - 62135596800 * 1000000000"

text \<open>
  \<open>strings.ToLower\<close> belongs to the Go library.  Every function that calls it takes it
  as its first argument, named \<open>ToLower\<close>.  With the sample data it is instantiated by
  \<open>asciiToLower\<close>, which is what \<open>strings.ToLower\<close> does on ASCII strings.
\<close>
definition lowerChar :: "char \<Rightarrow> char" where
  "lowerChar c = (if CHR ''A'' \<le> c \<and> c \<le> CHR ''Z'' then char_of (of_char c + (32::nat)) else c)"

definition asciiToLower :: "string \<Rightarrow> string" where
  "asciiToLower s = map lowerChar s"

section \<open>Detection aggregator (processor.go)\<close>

text \<open>
  Confidences are \<open>float64\<close> in the source; every finite float is a rational and the
  aggregator only compares and stores them, so they are rationals here.
\<close>

record Note =
  CommonName :: string
  ScientificName :: string
  NoteConfidence :: rat
  BeginTime :: time
  EndTime :: time
  ClipName :: string

record Detections =
  pcmData3s :: "nat list"
  Note :: Note
  Results :: "(string \<times> rat) list"

record PendingDetection =
  Detection :: Detections
  Confidence :: rat
  Source :: string
  FirstDetected :: time
  LastUpdated :: time
  FlushDeadline :: time
  Count :: int

type_synonym pending = "(string \<times> PendingDetection) list"

text \<open>The debounce delay of \<open>processDetections\<close>: \<open>15 * time.Second\<close>.\<close>
definition delay :: duration where
  "delay = 15 * Second"

text \<open>
  One iteration of the loop of \<open>processDetections\<close>, under \<open>pendingMutex\<close>:
  \<open>src\<close> and \<open>start\<close> are \<open>item.Source\<close> and \<open>item.StartTime\<close>, \<open>now\<close> is what
  \<open>time.Now()\<close> returns in this iteration, \<open>d\<close> is the detection that \<open>processResults\<close>
  produced.  \<open>updateDynamicThreshold\<close> does not touch the pending map.
\<close>
definition processDetection ::
  "(string \<Rightarrow> string) \<Rightarrow> string \<Rightarrow> time \<Rightarrow> time \<Rightarrow> Detections \<Rightarrow> pending \<Rightarrow> pending" where
  "processDetection ToLower src start now d pd =
     (let commonName = ToLower (CommonName (Note d));
          confidence = NoteConfidence (Note d)
      in case map_of pd commonName of
           Some existing \<Rightarrow>
             (let existing1 =
                    (if confidence > Confidence existing
                     then existing\<lparr>Detection := d, Confidence := confidence,
                                   Source := src, LastUpdated := now\<rparr>
                     else existing)
              in AList.update commonName (existing1\<lparr>Count := Count existing1 + 1\<rparr>) pd)
         | None \<Rightarrow>
             AList.update commonName
               \<lparr>Detection = d, Confidence = confidence, Source = src,
                FirstDetected = start, LastUpdated = zeroTime,
                FlushDeadline = time_Add start delay, Count = 1\<rparr> pd)"

text \<open>
  \<open>processDetections\<close>: the loop over the detections of one classifier result, each
  paired with the clock reading of its iteration.
\<close>
fun processDetections ::
  "(string \<Rightarrow> string) \<Rightarrow> string \<Rightarrow> time \<Rightarrow> (Detections \<times> time) list \<Rightarrow> pending \<Rightarrow> pending" where
  "processDetections ToLower src start [] pd = pd"
| "processDetections ToLower src start ((d, now) # ds) pd =
     processDetections ToLower src start ds (processDetection ToLower src start now d pd)"

text \<open>
  What a flusher tick at time \<open>now\<close> leaves in the pending map: every entry it visits
  with \<open>now.After(item.FlushDeadline)\<close> is deleted, whether discarded or approved.
\<close>
definition flushPending :: "time \<Rightarrow> pending \<Rightarrow> pending" where
  "flushPending now pd = filter (\<lambda>(species, item). \<not> now > FlushDeadline item) pd"

text \<open>
  Histories of the aggregator.  An event is one call of \<open>processDetections\<close> or one tick
  of the flusher.  Beside the pending map, \<open>hits\<close> records for every key the confidences
  of the detections aggregated into its current entry, in order of arrival; it is emptied
  when the flusher deletes the entry.
\<close>
datatype event = Process string time "(Detections \<times> time) list" | Tick time

type_synonym hits = "string \<Rightarrow> rat list"

definition recordHit :: "(string \<Rightarrow> string) \<Rightarrow> Detections \<Rightarrow> hits \<Rightarrow> hits" where
  "recordHit ToLower d g =
     (let k = ToLower (CommonName (Note d)) in g(k := g k @ [NoteConfidence (Note d)]))"

fun recordHits :: "(string \<Rightarrow> string) \<Rightarrow> (Detections \<times> time) list \<Rightarrow> hits \<Rightarrow> hits" where
  "recordHits ToLower [] g = g"
| "recordHits ToLower ((d, now) # ds) g = recordHits ToLower ds (recordHit ToLower d g)"

definition forgetFlushed :: "time \<Rightarrow> pending \<Rightarrow> hits \<Rightarrow> hits" where
  "forgetFlushed now pd g =
     (\<lambda>k. case map_of pd k of
            Some item \<Rightarrow> if now > FlushDeadline item then [] else g k
          | None \<Rightarrow> g k)"

fun step :: "(string \<Rightarrow> string) \<Rightarrow> event \<Rightarrow> pending \<times> hits \<Rightarrow> pending \<times> hits" where
  "step ToLower (Process src start ds) (pd, g) =
     (processDetections ToLower src start ds pd, recordHits ToLower ds g)"
| "step ToLower (Tick now) (pd, g) = (flushPending now pd, forgetFlushed now pd g)"

fun run :: "(string \<Rightarrow> string) \<Rightarrow> event list \<Rightarrow> pending \<times> hits \<Rightarrow> pending \<times> hits" where
  "run ToLower [] s = s"
| "run ToLower (e # es) s = run ToLower es (step ToLower e s)"

definition initial :: "pending \<times> hits" where
  "initial = ([], \<lambda>k. [])"

text \<open>The invariant of an entry against the hits aggregated into it.\<close>
definition entry_ok :: "PendingDetection \<Rightarrow> rat list \<Rightarrow> bool" where
  "entry_ok e cs \<longleftrightarrow>
     cs \<noteq> [] \<and> FlushDeadline e = FirstDetected e + 15 * 1000000000 \<and>
     Count e = int (length cs) \<and> Confidence e = Max (set cs)"

definition agg_inv :: "pending \<times> hits \<Rightarrow> bool" where
  "agg_inv s \<longleftrightarrow>
     distinct (map fst (fst s)) \<and>
     (\<forall>k. map_of (fst s) k = None \<longrightarrow> snd s k = []) \<and>
     (\<forall>k e. map_of (fst s) k = Some e \<longrightarrow> entry_ok e (snd s k))"

subsection \<open>The flusher\<close>

text \<open>
  The part of \<open>Processor\<close> that the flusher reads and writes.  The dog-bark check, the
  action planner and the job queue are not part of the aggregator: \<open>CheckDogBarkFilter\<close>,
  \<open>getActionsForItem\<close> and \<open>EnqueueTask\<close> are fields holding their behaviour, over any
  type \<open>'a\<close> of actions and any type \<open>'q\<close> of queue states.  \<open>EnqueueTask\<close> returns its
  error (\<open>None\<close> for \<open>nil\<close>, otherwise the text of \<open>err.Error()\<close>) together with the queue
  afterwards.  The overlap is a \<open>float64\<close> setting, taken as the rational it denotes.
\<close>

record 'a Task =
  TaskDetection :: Detections
  TaskAction :: 'a

record ('a, 'q) Processor =
  PrivacyFilterEnabled :: bool
  DogBarkFilterEnabled :: bool
  Overlap :: rat
  LastHumanDetection :: "string \<rightharpoonup> time"
  LastDogDetection :: "string \<rightharpoonup> time"
  CheckDogBarkFilter :: "string \<Rightarrow> time \<Rightarrow> bool"
  getActionsForItem :: "Detections \<Rightarrow> 'a list"
  EnqueueTask :: "'q \<Rightarrow> 'a Task \<Rightarrow> string option \<times> 'q"
  pendingDetections :: pending
  JobQueue :: 'q

datatype reason = NotDiscarded | FalsePositive int int | PrivacyFilter | RecentDogBark

text \<open>
  The lines the flusher prints with \<open>log.Printf\<close>, each with the values it is given:
  species, source and reason of a discarded entry; species, source and count of an
  approved one; the species of a task dropped because the worker queue is full; the
  species and the error of a task refused for another reason (the source prints the
  error as \<open>sanitizeError\<close> returns it).
\<close>
datatype flush_log =
    Discarding string string reason
  | Approving string string int
  | QueueFull string
  | EnqueueFailed string string

text \<open>\<open>shouldDiscardDetection\<close>; a missing key of \<open>LastDogDetection\<close> reads as the zero time.\<close>
definition shouldDiscardDetection ::
  "('a, 'q) Processor \<Rightarrow> PendingDetection \<Rightarrow> int \<Rightarrow> bool \<times> reason" where
  "shouldDiscardDetection p item minDetections =
     (if Count item < minDetections then (True, FalsePositive (Count item) minDetections)
      else if PrivacyFilterEnabled p \<and>
              (case LastHumanDetection p (Source item) of
                 Some lastHumanDetection \<Rightarrow> lastHumanDetection > FirstDetected item
               | None \<Rightarrow> False)
      then (True, PrivacyFilter)
      else if DogBarkFilterEnabled p \<and>
              (let lastDogDetection =
                     (case LastDogDetection p (Source item) of Some t \<Rightarrow> t | None \<Rightarrow> zeroTime)
               in CheckDogBarkFilter p (CommonName (Note (Detection item))) lastDogDetection \<or>
                  CheckDogBarkFilter p (ScientificName (Note (Detection item))) lastDogDetection)
      then (True, RecentDogBark)
      else (False, NotDiscarded))"

text \<open>
  The loop of \<open>processApprovedDetection\<close> over the action list: a task that \<open>EnqueueTask\<close>
  refuses is logged and the loop goes on with the next action.
\<close>
fun enqueueActions ::
  "('a, 'q) Processor \<Rightarrow> string \<Rightarrow> Detections \<Rightarrow> 'a list \<Rightarrow> 'q \<Rightarrow> 'q \<times> flush_log list" where
  "enqueueActions p species det [] q = (q, [])"
| "enqueueActions p species det (action # actions) q =
     (case EnqueueTask p q \<lparr>TaskDetection = det, TaskAction = action\<rparr> of
        (None, q') \<Rightarrow> enqueueActions p species det actions q'
      | (Some err, q') \<Rightarrow>
          (let (q'', logged) = enqueueActions p species det actions q'
           in (q'',
               (if err = ''worker queue is full'' then QueueFull species
                else EnqueueFailed species err) # logged)))"

definition processApprovedDetection ::
  "('a, 'q) Processor \<Rightarrow> PendingDetection \<Rightarrow> string \<Rightarrow> 'q \<Rightarrow> 'q \<times> flush_log list" where
  "processApprovedDetection p item species q =
     (let det = (Detection item)\<lparr>Note := (Note (Detection item))\<lparr>BeginTime := FirstDetected item\<rparr>\<rparr>;
          (q', logged) = enqueueActions p species det (getActionsForItem p det) q
      in (q', Approving species (Source item) (Count item) # logged))"

text \<open>
  \<open>minDetections\<close> as \<open>pendingDetectionsFlusher\<close> computes it:
  \<open>segmentLength := math.Max(0.1, 3.0 - overlap)\<close>, then
  \<open>int(math.Max(1, 3/segmentLength))\<close>, in exact arithmetic.
\<close>
definition minDetections :: "rat \<Rightarrow> int" where
  "minDetections overlap =
     (let segmentLength = max (1 / 10) (3 - overlap) in \<lfloor>max 1 (3 / segmentLength)\<rfloor>)"

text \<open>
  The body of one tick over the entries of the map, in the order the \<open>range\<close> loop
  visits them: returns the entries left, the queue and the lines logged.
\<close>
fun flushEntries ::
  "('a, 'q) Processor \<Rightarrow> int \<Rightarrow> time \<Rightarrow> pending \<Rightarrow> 'q \<Rightarrow> pending \<times> 'q \<times> flush_log list" where
  "flushEntries p m now [] q = ([], q, [])"
| "flushEntries p m now ((species, item) # rest) q =
     (if now > FlushDeadline item then
        (case shouldDiscardDetection p item m of
           (True, why) \<Rightarrow>
             (let (kept, q', logged) = flushEntries p m now rest q
              in (kept, q', Discarding species (Source item) why # logged))
         | (False, why) \<Rightarrow>
             (let (q1, logged1) = processApprovedDetection p item species q;
                  (kept, q', logged) = flushEntries p m now rest q1
              in (kept, q', logged1 @ logged)))
      else (let (kept, q', logged) = flushEntries p m now rest q
            in ((species, item) # kept, q', logged)))"

text \<open>One tick: the processor afterwards and the lines logged.\<close>
definition flusherTick ::
  "('a, 'q) Processor \<Rightarrow> time \<Rightarrow> ('a, 'q) Processor \<times> flush_log list" where
  "flusherTick p now =
     (let (kept, q, logged) =
            flushEntries p (minDetections (Overlap p)) now (pendingDetections p) (JobQueue p)
      in (p\<lparr>pendingDetections := kept, JobQueue := q\<rparr>, logged))"

text \<open>
  The flush rule in the words of the specification: the minimum number of detections,
  when an entry is discarded, and the tasks of an entry that is not.
\<close>
definition spec_min_detections :: "rat \<Rightarrow> int" where
  "spec_min_detections overlap = max 1 \<lfloor>3 / max (1 / 10) (3 - overlap)\<rfloor>"

definition dog_bark_matches :: "('a, 'q) Processor \<Rightarrow> PendingDetection \<Rightarrow> bool" where
  "dog_bark_matches p item \<longleftrightarrow>
     DogBarkFilterEnabled p \<and>
     (CheckDogBarkFilter p (CommonName (Note (Detection item)))
        (case LastDogDetection p (Source item) of Some t \<Rightarrow> t | None \<Rightarrow> zeroTime) \<or>
      CheckDogBarkFilter p (ScientificName (Note (Detection item)))
        (case LastDogDetection p (Source item) of Some t \<Rightarrow> t | None \<Rightarrow> zeroTime))"

definition spec_discard :: "('a, 'q) Processor \<Rightarrow> PendingDetection \<Rightarrow> bool" where
  "spec_discard p item \<longleftrightarrow>
     Count item < spec_min_detections (Overlap p) \<or>
     (PrivacyFilterEnabled p \<and>
      (case LastHumanDetection p (Source item) of
         Some t \<Rightarrow> t > FirstDetected item | None \<Rightarrow> False)) \<or>
     dog_bark_matches p item"

definition spec_tasks :: "('a, 'q) Processor \<Rightarrow> PendingDetection \<Rightarrow> 'a Task list" where
  "spec_tasks p item =
     map (\<lambda>action. \<lparr>TaskDetection =
                       (Detection item)\<lparr>Note := (Note (Detection item))\<lparr>BeginTime := FirstDetected item\<rparr>\<rparr>,
                     TaskAction = action\<rparr>)
       (getActionsForItem p
          ((Detection item)\<lparr>Note := (Note (Detection item))\<lparr>BeginTime := FirstDetected item\<rparr>\<rparr>))"

text \<open>
  The entries a tick discards and the entries it approves, in the order of the map; and
  the tasks of the approved entries, each with the species it is filed under, in the order
  in which they are offered to the job queue.
\<close>
definition spec_discarded :: "('a, 'q) Processor \<Rightarrow> time \<Rightarrow> pending" where
  "spec_discarded p now =
     filter (\<lambda>(species, item). now > FlushDeadline item \<and> spec_discard p item) (pendingDetections p)"

definition spec_approved :: "('a, 'q) Processor \<Rightarrow> time \<Rightarrow> pending" where
  "spec_approved p now =
     filter (\<lambda>(species, item). now > FlushDeadline item \<and> \<not> spec_discard p item) (pendingDetections p)"

definition spec_offers :: "('a, 'q) Processor \<Rightarrow> time \<Rightarrow> (string \<times> 'a Task) list" where
  "spec_offers p now =
     concat (map (\<lambda>(species, item). map (Pair species) (spec_tasks p item)) (spec_approved p now))"

text \<open>
  Offering tasks to a queue one after the other: the queue afterwards, and the refused
  tasks with the species and the error of each.
\<close>
fun offerAll ::
  "('q \<Rightarrow> 'a Task \<Rightarrow> string option \<times> 'q) \<Rightarrow> (string \<times> 'a Task) list \<Rightarrow> 'q \<Rightarrow>
   'q \<times> (string \<times> 'a Task \<times> string) list" where
  "offerAll enqueue [] q = (q, [])"
| "offerAll enqueue ((species, t) # ts) q =
     (case enqueue q t of
        (None, q') \<Rightarrow> offerAll enqueue ts q'
      | (Some err, q') \<Rightarrow>
          (let (q'', refused) = offerAll enqueue ts q' in (q'', (species, t, err) # refused)))"

text \<open>The line logged for a refused task.\<close>
definition refusal_line :: "string \<times> 'a Task \<times> string \<Rightarrow> flush_log" where
  "refusal_line r =
     (case r of (species, t, err) \<Rightarrow>
        if err = ''worker queue is full'' then QueueFull species else EnqueueFailed species err)"

text \<open>The lines of a log by kind.\<close>
fun is_refusal :: "flush_log \<Rightarrow> bool" where
  "is_refusal (QueueFull species) = True"
| "is_refusal (EnqueueFailed species err) = True"
| "is_refusal (Discarding species source why) = False"
| "is_refusal (Approving species source n) = False"

fun is_discarding :: "flush_log \<Rightarrow> bool" where
  "is_discarding (Discarding species source why) = True"
| "is_discarding (QueueFull species) = False"
| "is_discarding (EnqueueFailed species err) = False"
| "is_discarding (Approving species source n) = False"

fun is_approving :: "flush_log \<Rightarrow> bool" where
  "is_approving (Approving species source n) = True"
| "is_approving (QueueFull species) = False"
| "is_approving (EnqueueFailed species err) = False"
| "is_approving (Discarding species source why) = False"

text \<open>
  Modelled from the spec: the job queue behind \<open>EnqueueTask\<close> is not part of the sources.  The
  specification (4.6) has a bounded FIFO queue whose \<open>enqueue\<close> does not block and answers
  \<open>queue_full\<close>, dropping the newest task, when the queue holds \<open>capacity\<close> jobs; the text of
  the error is the one \<open>processApprovedDetection\<close> tests for.
\<close>
definition boundedEnqueue :: "nat \<Rightarrow> 'a Task list \<Rightarrow> 'a Task \<Rightarrow> string option \<times> 'a Task list" where
  "boundedEnqueue capacity q t =
     (if length q < capacity then (None, q @ [t]) else (Some ''worker queue is full'', q))"

text \<open>Sample data: a detection of a named species, and a short burst of hits.\<close>
definition sample_detection :: "string \<Rightarrow> rat \<Rightarrow> Detections" where
  "sample_detection name c =
     \<lparr>pcmData3s = [],
      Note = \<lparr>CommonName = name, ScientificName = ''Erithacus rubecula'', NoteConfidence = c,
              BeginTime = 7, EndTime = 15000000007, ClipName = []\<rparr>,
      Results = []\<rparr>"

definition sample_burst :: "(Detections \<times> time) list" where
  "sample_burst =
     [(sample_detection ''Robin'' (1 / 2), 100), (sample_detection ''Robin'' (9 / 10), 200),
      (sample_detection ''ROBIN'' (3 / 5), 300)]"

definition sample_entry :: PendingDetection where
  "sample_entry =
     \<lparr>Detection = sample_detection ''Robin'' (9 / 10), Confidence = 9 / 10, Source = ''mic'',
      FirstDetected = 0, LastUpdated = 200, FlushDeadline = 15000000000, Count = 3\<rparr>"

definition sample_processor :: "nat \<Rightarrow> (string, string Task list) Processor" where
  "sample_processor capacity =
     \<lparr>PrivacyFilterEnabled = True, DogBarkFilterEnabled = False, Overlap = 3 / 2,
      LastHumanDetection = Map.empty, LastDogDetection = Map.empty,
      CheckDogBarkFilter = (\<lambda>s t. False),
      getActionsForItem = (\<lambda>d. [''log'', ''database'']),
      EnqueueTask = boundedEnqueue capacity,
      pendingDetections = [(''robin'', sample_entry), (''wren'', sample_entry\<lparr>Count := 1\<rparr>)],
      JobQueue = []\<rparr>"

section \<open>Event tracker (eventtracker.go)\<close>

text \<open>
  \<open>EventType\<close> is an \<open>int\<close> with six declared values.  An \<open>EventBehaviorFunc\<close> reads the
  clock through \<open>time.Since\<close>; here it takes that reading as its first argument.
\<close>
type_synonym EventType = int

definition DatabaseSave :: EventType where "DatabaseSave = 0"
definition LogToFile :: EventType where "LogToFile = 1"
definition SendNotification :: EventType where "SendNotification = 2"
definition BirdWeatherSubmit :: EventType where "BirdWeatherSubmit = 3"
definition MQTTPublish :: EventType where "MQTTPublish = 4"
definition SSEBroadcast :: EventType where "SSEBroadcast = 5"

type_synonym EventBehaviorFunc = "time \<Rightarrow> time \<Rightarrow> duration \<Rightarrow> bool"

record EventHandler =
  LastEventTime :: "string \<rightharpoonup> time"
  BehaviorFunc :: EventBehaviorFunc

text \<open>The fields of \<open>conf.SpeciesConfig\<close> that the tracker reads.\<close>
record SpeciesConfig =
  Threshold :: rat
  Interval :: int

record EventTracker =
  Handlers :: "EventType \<rightharpoonup> EventHandler"
  SpeciesConfigs :: "string \<rightharpoonup> SpeciesConfig"
  DefaultInterval :: duration

definition NewEventHandler :: "duration \<Rightarrow> EventBehaviorFunc \<Rightarrow> EventHandler" where
  "NewEventHandler timeout behaviorFunc = \<lparr>LastEventTime = Map.empty, BehaviorFunc = behaviorFunc\<rparr>"

text \<open>\<open>time.Since(lastEventTime) >= timeout\<close>, with \<open>now\<close> the clock reading of \<open>time.Since\<close>.\<close>
definition StandardEventBehavior :: EventBehaviorFunc where
  "StandardEventBehavior now lastEventTime timeout \<longleftrightarrow> time_Sub now lastEventTime \<ge> timeout"

text \<open>
  \<open>shouldHandleEventLocked\<close>: \<open>now\<close> is the clock reading inside the behaviour function,
  \<open>now'\<close> the later reading that is stored.  Go's \<open>||\<close> does not call the behaviour
  function when no time is recorded.
\<close>
definition shouldHandleEventLocked ::
  "(string \<Rightarrow> string) \<Rightarrow> EventHandler \<Rightarrow> string \<Rightarrow> duration \<Rightarrow> time \<Rightarrow> time \<Rightarrow> bool \<times> EventHandler" where
  "shouldHandleEventLocked ToLower h species timeout now now' =
     (let normalizedSpecies = ToLower species in
      case LastEventTime h normalizedSpecies of
        None \<Rightarrow> (True, h\<lparr>LastEventTime := (LastEventTime h)(normalizedSpecies \<mapsto> now')\<rparr>)
      | Some lastTime \<Rightarrow>
          if BehaviorFunc h now lastTime timeout
          then (True, h\<lparr>LastEventTime := (LastEventTime h)(normalizedSpecies \<mapsto> now')\<rparr>)
          else (False, h))"

definition ResetEvent_handler :: "(string \<Rightarrow> string) \<Rightarrow> EventHandler \<Rightarrow> string \<Rightarrow> EventHandler" where
  "ResetEvent_handler ToLower h species = h\<lparr>LastEventTime := (LastEventTime h)(ToLower species := None)\<rparr>"

text \<open>
  \<open>initEventTracker\<close>: the species configurations arrive as the entries of a Go map, in
  the order the \<open>range\<close> loop visits them.
\<close>
definition initEventTracker ::
  "(string \<Rightarrow> string) \<Rightarrow> duration \<Rightarrow> (string \<times> SpeciesConfig) list \<Rightarrow> EventTracker" where
  "initEventTracker ToLower interval speciesConfigs =
     \<lparr>Handlers =
        map_of
          [(DatabaseSave, NewEventHandler interval StandardEventBehavior),
           (LogToFile, NewEventHandler interval StandardEventBehavior),
           (SendNotification, NewEventHandler interval StandardEventBehavior),
           (BirdWeatherSubmit, NewEventHandler interval StandardEventBehavior),
           (MQTTPublish, NewEventHandler interval StandardEventBehavior),
           (SSEBroadcast, NewEventHandler interval StandardEventBehavior)],
      SpeciesConfigs =
        foldl (\<lambda>m (species, config). m(ToLower species \<mapsto> config)) Map.empty speciesConfigs,
      DefaultInterval = interval\<rparr>"

definition NewEventTracker :: "(string \<Rightarrow> string) \<Rightarrow> duration \<Rightarrow> EventTracker" where
  "NewEventTracker ToLower interval = initEventTracker ToLower interval []"

definition NewEventTrackerWithConfig ::
  "(string \<Rightarrow> string) \<Rightarrow> duration \<Rightarrow> (string \<times> SpeciesConfig) list \<Rightarrow> EventTracker" where
  "NewEventTrackerWithConfig ToLower defaultInterval speciesConfigs =
     initEventTracker ToLower defaultInterval speciesConfigs"

datatype log_entry = NegativeIntervalWarning int string

text \<open>
  \<open>TrackEvent\<close> returns its verdict, what it logged and the tracker afterwards (the
  handler is updated in place in the source).
\<close>
definition TrackEvent ::
  "(string \<Rightarrow> string) \<Rightarrow> EventTracker \<Rightarrow> string \<Rightarrow> EventType \<Rightarrow> time \<Rightarrow> time \<Rightarrow> bool \<times> log_entry list \<times> EventTracker" where
  "TrackEvent ToLower et species eventType now now' =
     (let normalizedSpecies = ToLower species in
      case Handlers et eventType of
        None \<Rightarrow> (False, [], et)
      | Some handler \<Rightarrow>
          (let (effectiveTimeout, logged) =
                 (case SpeciesConfigs et normalizedSpecies of
                    Some speciesConfig \<Rightarrow>
                      if Interval speciesConfig > 0
                      then (seconds (Interval speciesConfig), [])
                      else if Interval speciesConfig < 0
                      then (DefaultInterval et,
                            [NegativeIntervalWarning (Interval speciesConfig) species])
                      else (DefaultInterval et, [])
                  | None \<Rightarrow> (DefaultInterval et, []));
               (allowEvent, handler') =
                 shouldHandleEventLocked ToLower handler normalizedSpecies effectiveTimeout now now'
           in (allowEvent, logged, et\<lparr>Handlers := (Handlers et)(eventType \<mapsto> handler')\<rparr>)))"

definition ResetEvent :: "(string \<Rightarrow> string) \<Rightarrow> EventTracker \<Rightarrow> string \<Rightarrow> EventType \<Rightarrow> EventTracker" where
  "ResetEvent ToLower et species eventType =
     (case Handlers et eventType of
        None \<Rightarrow> et
      | Some handler \<Rightarrow>
          et\<lparr>Handlers := (Handlers et)(eventType \<mapsto> ResetEvent_handler ToLower handler (ToLower species))\<rparr>)"

text \<open>
  The time recorded under a key of \<open>LastEventTime\<close> for an event type, if any.  \<open>TrackEvent\<close>
  and \<open>ResetEvent\<close> lowercase the species name and hand it to the handler, which lowercases
  it again: the key they use is \<open>ToLower (ToLower species)\<close>.
\<close>
definition lastEvent :: "EventTracker \<Rightarrow> string \<Rightarrow> EventType \<Rightarrow> time option" where
  "lastEvent et key eventType =
     (case Handlers et eventType of
        None \<Rightarrow> None
      | Some handler \<Rightarrow> LastEventTime handler key)"

text \<open>
  The effective interval in the words of the specification: the override in seconds when
  it is positive, the global default otherwise.
\<close>
definition spec_effective_interval ::
  "(string \<Rightarrow> string) \<Rightarrow> EventTracker \<Rightarrow> string \<Rightarrow> duration" where
  "spec_effective_interval ToLower et species =
     (case SpeciesConfigs et (ToLower species) of
        Some speciesConfig \<Rightarrow>
          if Interval speciesConfig > 0 then Interval speciesConfig * 1000000000
          else DefaultInterval et
      | None \<Rightarrow> DefaultInterval et)"

definition override_interval ::
  "(string \<Rightarrow> string) \<Rightarrow> EventTracker \<Rightarrow> string \<Rightarrow> int option" where
  "override_interval ToLower et species =
     map_option Interval (SpeciesConfigs et (ToLower species))"

text \<open>Sample trackers: a default of 45 s; an override of 10 s, and one past the 64-bit range.\<close>
definition sample_tracker :: EventTracker where
  "sample_tracker =
     NewEventTrackerWithConfig asciiToLower (45 * Second)
       [(''Robin'', \<lparr>Threshold = 0, Interval = 10\<rparr>), (''Wren'', \<lparr>Threshold = 0, Interval = 0\<rparr>),
        (''Owl'', \<lparr>Threshold = 0, Interval = 9223372037\<rparr>)]"

section \<open>Capture ring buffer (capture buffer file of package myaudio)\<close>

type_synonym byte = "8 word"

record CaptureBuffer =
  data :: "byte list"
  writeIndex :: int
  sampleRate :: int
  bytesPerSample :: int
  bufferSize :: int
  bufferDuration :: duration
  startTime :: time
  initialized :: bool
  source :: string

datatype capture_error =
    InvalidDuration int
  | InvalidSampleRate int
  | InvalidBytesPerSample int
  | EmptySource
  | SizeTooLarge int
  | CreationFailed
  | AlreadyExists string
  | MakeSlicePanic int
  | DivideByZeroPanic
  | SliceBoundsPanic
  | OutsideTimeframe
  | InvalidTimes

text \<open>
  The size computed by \<open>NewCaptureBuffer\<close> and by the allocator: the product of the three
  Go \<open>int\<close>s, rounded up to a multiple of 2048, every operation wrapping at 64 bits and
  the division truncating.
\<close>
definition alignedBufferSize :: "int \<Rightarrow> int \<Rightarrow> int \<Rightarrow> int" where
  "alignedBufferSize durationSeconds rate sampleBytes =
     (let bufferSize = int64 (int64 (durationSeconds * rate) * sampleBytes)
      in int64 ((int64 (bufferSize + 2047) sdiv 2048) * 2048))"

text \<open>
  \<open>NewCaptureBuffer\<close>; \<open>make([]byte, n)\<close> panics on a negative length.  The fields left
  out of the composite literal hold their zero values.
\<close>
definition NewCaptureBuffer :: "int \<Rightarrow> int \<Rightarrow> int \<Rightarrow> string \<Rightarrow> capture_error + CaptureBuffer" where
  "NewCaptureBuffer durationSeconds rate sampleBytes src =
     (let aligned = alignedBufferSize durationSeconds rate sampleBytes in
      if aligned < 0 then Inl (MakeSlicePanic aligned)
      else Inr \<lparr>data = replicate (nat aligned) 0, writeIndex = 0, sampleRate = rate,
                bytesPerSample = sampleBytes, bufferSize = aligned,
                bufferDuration = int64 (Second * durationSeconds), startTime = zeroTime,
                initialized = False, source = src\<rparr>)"

text \<open>
  The package state: the map of capture buffers, the number of buffers created so far,
  and the source registry (absent while \<open>GetRegistry\<close> returns nil).  The registry is
  not part of this file; \<open>acquire\<close> stands for its \<open>AcquireSourceReference\<close>.  The metrics
  calls only report and are left out.
\<close>
record 'r CaptureState =
  captureBuffers :: "string \<rightharpoonup> CaptureBuffer"
  buffersCreated :: nat
  registry :: "'r option"

definition allocateCaptureBufferInternal ::
  "('r \<Rightarrow> string \<Rightarrow> 'r) \<Rightarrow> int \<Rightarrow> int \<Rightarrow> int \<Rightarrow> string \<Rightarrow> 'r CaptureState \<Rightarrow>
     capture_error option \<times> 'r CaptureState" where
  "allocateCaptureBufferInternal acquire durationSeconds rate sampleBytes src st =
     (if durationSeconds \<le> 0 then (Some (InvalidDuration durationSeconds), st)
      else if rate \<le> 0 then (Some (InvalidSampleRate rate), st)
      else if sampleBytes \<le> 0 then (Some (InvalidBytesPerSample sampleBytes), st)
      else if src = [] then (Some EmptySource, st)
      else if alignedBufferSize durationSeconds rate sampleBytes > 2 ^ 30
      then (Some (SizeTooLarge (alignedBufferSize durationSeconds rate sampleBytes)), st)
      else case NewCaptureBuffer durationSeconds rate sampleBytes src of
             Inl panic \<Rightarrow> (Some panic, st)
           | Inr cb \<Rightarrow>
               (let st1 = st\<lparr>buffersCreated := buffersCreated st + 1\<rparr> in
                if captureBuffers st1 src \<noteq> None then (Some (AlreadyExists src), st1)
                else (None,
                      st1\<lparr>captureBuffers := (captureBuffers st1)(src \<mapsto> cb),
                          registry := map_option (\<lambda>r. acquire r src) (registry st1)\<rparr>)))"

definition AllocateCaptureBufferIfNeeded ::
  "('r \<Rightarrow> string \<Rightarrow> 'r) \<Rightarrow> int \<Rightarrow> int \<Rightarrow> int \<Rightarrow> string \<Rightarrow> 'r CaptureState \<Rightarrow>
     capture_error option \<times> 'r CaptureState" where
  "AllocateCaptureBufferIfNeeded acquire durationSeconds rate sampleBytes sourceID st =
     (if captureBuffers st sourceID \<noteq> None then (None, st)
      else allocateCaptureBufferInternal acquire durationSeconds rate sampleBytes sourceID st)"

definition AllocateCaptureBuffer ::
  "('r \<Rightarrow> string \<Rightarrow> 'r) \<Rightarrow> int \<Rightarrow> int \<Rightarrow> int \<Rightarrow> string \<Rightarrow> 'r CaptureState \<Rightarrow>
     capture_error option \<times> 'r CaptureState" where
  "AllocateCaptureBuffer acquire durationSeconds rate sampleBytes sourceID st =
     allocateCaptureBufferInternal acquire durationSeconds rate sampleBytes sourceID st"

text \<open>\<open>k\<close> calls of \<open>AllocateCaptureBufferIfNeeded\<close> in a row: what each returned, and the state.\<close>
fun allocateTimes ::
  "nat \<Rightarrow> ('r \<Rightarrow> string \<Rightarrow> 'r) \<Rightarrow> int \<Rightarrow> int \<Rightarrow> int \<Rightarrow> string \<Rightarrow> 'r CaptureState \<Rightarrow>
     capture_error option list \<times> 'r CaptureState" where
  "allocateTimes 0 acquire d sr bps src st = ([], st)"
| "allocateTimes (Suc k) acquire d sr bps src st =
     (let (err, st1) = AllocateCaptureBufferIfNeeded acquire d sr bps src st;
          (errs, st2) = allocateTimes k acquire d sr bps src st1
      in (err # errs, st2))"

definition emptyCaptureState :: "nat CaptureState" where
  "emptyCaptureState = \<lparr>captureBuffers = Map.empty, buffersCreated = 0, registry = Some 0\<rparr>"

subsection \<open>Reading a segment\<close>

text \<open>
  \<open>int(d.Seconds())\<close> goes through a \<open>float64\<close> of the Go library: \<open>ReadSegment\<close> takes the
  conversion as its first argument, named \<open>intSeconds\<close>.
\<close>

text \<open>\<open>copy(dst, src)\<close>: the contents of \<open>dst\<close> afterwards.\<close>
definition go_copy :: "'a list \<Rightarrow> 'a list \<Rightarrow> 'a list" where
  "go_copy dst src = take (length dst) src @ drop (length src) dst"

text \<open>\<open>s[lo:hi]\<close> on a slice whose capacity is its length; out of range it panics.\<close>
definition go_slice :: "'a list \<Rightarrow> int \<Rightarrow> int \<Rightarrow> capture_error + 'a list" where
  "go_slice s lo hi =
     (if 0 \<le> lo \<and> lo \<le> hi \<and> hi \<le> int (length s)
      then Inr (take (nat (hi - lo)) (drop (nat lo) s))
      else Inl SliceBoundsPanic)"

datatype read_step = Failed capture_error | Waiting | Returned "byte list"

text \<open>The extraction of the segment once the clock has passed the requested end.\<close>
definition extractSegment :: "CaptureBuffer \<Rightarrow> int \<Rightarrow> int \<Rightarrow> capture_error + byte list" where
  "extractSegment cb startIndex endIndex =
     (if startIndex < endIndex then
        (let segmentSize = int64 (endIndex - startIndex) in
         if segmentSize < 0 then Inl (MakeSlicePanic segmentSize)
         else case go_slice (data cb) startIndex endIndex of
                Inl panic \<Rightarrow> Inl panic
              | Inr src \<Rightarrow> Inr (go_copy (replicate (nat segmentSize) 0) src))
      else
        (let segmentSize = int64 (int64 (bufferSize cb - startIndex) + endIndex);
             firstPartSize = int64 (bufferSize cb - startIndex)
         in if segmentSize < 0 then Inl (MakeSlicePanic segmentSize)
            else case go_slice (replicate (nat segmentSize) (0::byte)) 0 firstPartSize of
                   Inl panic \<Rightarrow> Inl panic
                 | Inr dst1 \<Rightarrow>
                case go_slice (data cb) startIndex (int (length (data cb))) of
                   Inl panic \<Rightarrow> Inl panic
                 | Inr src1 \<Rightarrow>
                case go_slice (replicate (nat segmentSize) (0::byte)) firstPartSize segmentSize of
                   Inl panic \<Rightarrow> Inl panic
                 | Inr dst2 \<Rightarrow>
                case go_slice (data cb) 0 endIndex of
                   Inl panic \<Rightarrow> Inl panic
                 | Inr src2 \<Rightarrow> Inr (go_copy dst1 src1 @ go_copy dst2 src2)))"

text \<open>
  One pass of the loop of \<open>ReadSegment\<close>, under the buffer's lock: \<open>cb\<close> is the buffer
  as this pass finds it and \<open>now\<close> the clock reading of \<open>time.Now()\<close>.  Go's \<open>%\<close> is the
  truncating remainder and panics on a zero divisor.
\<close>
definition readSegmentPass ::
  "(duration \<Rightarrow> int) \<Rightarrow> CaptureBuffer \<Rightarrow> time \<Rightarrow> time \<Rightarrow> time \<Rightarrow> read_step" where
  "readSegmentPass intSeconds cb requestedStartTime requestedEndTime now =
     (let startOffset = time_Sub requestedStartTime (startTime cb);
          endOffset = time_Sub requestedEndTime (startTime cb);
          startIndex0 = int64 (int64 (intSeconds startOffset * sampleRate cb) * bytesPerSample cb);
          endIndex0 = int64 (int64 (intSeconds endOffset * sampleRate cb) * bytesPerSample cb)
      in if bufferSize cb = 0 then Failed DivideByZeroPanic
         else
           (let startIndex1 = startIndex0 smod bufferSize cb;
                endIndex = endIndex0 smod bufferSize cb
            in if startOffset < 0 \<and>
                  (writeIndex cb = 0 \<or>
                   int64 (writeIndex cb +
                          int64 (int64 (intSeconds startOffset * sampleRate cb) * bytesPerSample cb))
                     > bufferSize cb)
               then Failed OutsideTimeframe
               else
                 (let startIndex =
                        (if startOffset < 0 then int64 (bufferSize cb + startIndex1) smod bufferSize cb
                         else startIndex1)
                  in if endOffset < 0 \<or> endOffset \<le> startOffset then Failed InvalidTimes
                     else if now > requestedEndTime then
                       (case extractSegment cb startIndex endIndex of
                          Inl panic \<Rightarrow> Failed panic
                        | Inr segment \<Rightarrow> Returned segment)
                     else Waiting)))"

text \<open>
  The loop: each pass sees the buffer and the clock as they are then.  The result is
  \<open>None\<close> while the call has not returned after the passes given.
\<close>
fun readSegmentLoop ::
  "(duration \<Rightarrow> int) \<Rightarrow> time \<Rightarrow> time \<Rightarrow> (CaptureBuffer \<times> time) list \<Rightarrow> (capture_error + byte list) option" where
  "readSegmentLoop intSeconds requestedStartTime requestedEndTime [] = None"
| "readSegmentLoop intSeconds requestedStartTime requestedEndTime ((cb, now) # passes) =
     (case readSegmentPass intSeconds cb requestedStartTime requestedEndTime now of
        Failed e \<Rightarrow> Some (Inl e)
      | Returned segment \<Rightarrow> Some (Inr segment)
      | Waiting \<Rightarrow> readSegmentLoop intSeconds requestedStartTime requestedEndTime passes)"

definition ReadSegment ::
  "(duration \<Rightarrow> int) \<Rightarrow> time \<Rightarrow> int \<Rightarrow> (CaptureBuffer \<times> time) list \<Rightarrow> (capture_error + byte list) option" where
  "ReadSegment intSeconds requestedStartTime duration passes =
     readSegmentLoop intSeconds requestedStartTime (time_Add requestedStartTime (seconds duration)) passes"



text \<open>
  Truncation towards zero, which is what \<open>int(d.Seconds())\<close> gives for durations of less
  than \<open>2 ^ 24\<close> seconds; used with the sample data.
\<close>
definition truncSeconds :: "duration \<Rightarrow> int" where
  "truncSeconds d = d sdiv Second"







text \<open>A sample buffer: 16 bytes numbered from 0, 4 bytes a second, started at 10 s.\<close>
definition sample_buffer :: CaptureBuffer where
  "sample_buffer =
     \<lparr>data = [0, 1, 2, 3, 4, 5, 6, 7, 8, 9, 10, 11, 12, 13, 14, 15], writeIndex = 4,
      sampleRate = 2, bytesPerSample = 2, bufferSize = 16, bufferDuration = 4 * Second,
      startTime = 10 * Second, initialized = True, source = ''mic''\<rparr>"

section \<open>Command executor (execute.go)\<close>

text \<open>
  What \<open>ExecuteCommandAction\<close> takes from the Go runtime and the operating system:
  the platform, \<open>filepath.Clean\<close>, \<open>filepath.IsAbs\<close>, \<open>os.Stat\<close> (an error, or the mode
  bits of the file), \<open>os.Getenv\<close>, the \<open>%v\<close> and \<open>%q\<close> verbs of \<open>fmt.Sprintf\<close>, and the
  reflective lookup of a field of the Note (\<open>getNoteValueByName\<close>, \<open>None\<close> for nil).
  Parameter values have any type \<open>'v\<close>.  Strings are byte strings.
\<close>
datatype stat_error = NotExist | PermissionDenied | FileAccessError

record 'v Runtime =
  windows :: bool
  Clean :: "string \<Rightarrow> string"
  IsAbs :: "string \<Rightarrow> bool"
  Stat :: "string \<Rightarrow> stat_error + 32 word"
  Getenv :: "string \<Rightarrow> string"
  Sprintf_v :: "'v \<Rightarrow> string"
  Sprintf_q :: "string \<Rightarrow> string"
  noteValueByName :: "Note \<Rightarrow> string \<Rightarrow> 'v option"

record 'v ExecuteCommandAction =
  Command :: string
  Params :: "(string \<times> 'v) list"

datatype category = CategoryValidation | CategoryFileIO | CategoryCommandExecution

datatype exec_error =
    WrongDataType
  | AbsolutePathRequired
  | StatFailed stat_error
  | NotExecutable
  | InvalidParameterName string

text \<open>
  An error as the builder of the \<open>errors\<close> package leaves it: the category set last,
  and the cause.
\<close>
type_synonym enhanced_error = "category \<times> exec_error"

text \<open>\<open>validateCommandPath\<close>; \<open>0o111\<close> is 73.\<close>
definition validateCommandPath :: "'v Runtime \<Rightarrow> string \<Rightarrow> enhanced_error + string" where
  "validateCommandPath rt command0 =
     (let command = Clean rt command0 in
      if \<not> IsAbs rt command then Inl (CategoryValidation, AbsolutePathRequired)
      else case Stat rt command of
             Inl err \<Rightarrow> Inl (CategoryFileIO, StatFailed err)
           | Inr mode \<Rightarrow>
               if \<not> windows rt \<and> and mode 73 = 0
               then Inl (CategoryValidation, NotExecutable)
               else Inr command)"

text \<open>
  \<open>isValidParamName\<close> ranges over the runes of the name.  A byte below 128 is its own
  rune; a byte from 128 on belongs to a rune from 128 on, or to an invalid sequence read
  as \<open>U+FFFD\<close>, and in both cases the name is refused, as it is byte by byte.
\<close>
fun isValidParamName :: "string \<Rightarrow> bool" where
  "isValidParamName [] = True"
| "isValidParamName (r # name) =
     (if (r < CHR ''a'' \<or> r > CHR ''z'') \<and> (r < CHR ''A'' \<or> r > CHR ''Z'') \<and>
         (r < CHR ''0'' \<or> r > CHR ''9'') \<and> r \<noteq> CHR ''_'' \<and> r \<noteq> CHR ''-''
      then False else isValidParamName name)"

text \<open>\<open>sanitizeValue\<close>: the control characters are removed; it never fails.\<close>
definition sanitizeValue :: "'v Runtime \<Rightarrow> 'v \<Rightarrow> string" where
  "sanitizeValue rt v = filter (\<lambda>r. \<not> (of_char r :: nat) < 32) (Sprintf_v rt v)"

definition needsQuoting :: "string \<Rightarrow> bool" where
  "needsQuoting s \<longleftrightarrow>
     list_ex (\<lambda>c. c \<in> set '' @\"''  \<or> c = CHR 0x27) s \<and>
     (\<not> (take 1 s = ''\"'') \<or> \<not> (s \<noteq> [] \<and> last s = CHR ''\"''))"

text \<open>The loop of \<open>buildSafeArguments\<close> over the sorted keys.\<close>
fun buildArguments ::
  "'v Runtime \<Rightarrow> (string \<rightharpoonup> 'v) \<Rightarrow> Note \<Rightarrow> string list \<Rightarrow> enhanced_error + string list" where
  "buildArguments rt params note [] = Inr []"
| "buildArguments rt params note (key # keys) =
     (if \<not> isValidParamName key then Inl (CategoryValidation, InvalidParameterName key)
      else
        (let noteValue = (case noteValueByName rt note key of
                            Some v \<Rightarrow> Some v | None \<Rightarrow> params key);
             strValue0 = (case noteValue of Some v \<Rightarrow> sanitizeValue rt v
                          | None \<Rightarrow> ''<nil>'');
             strValue = (if needsQuoting strValue0 then Sprintf_q rt strValue0 else strValue0);
             arg = ''--'' @ key @ ''='' @ strValue
         in case buildArguments rt params note keys of
              Inl e \<Rightarrow> Inl e
            | Inr args \<Rightarrow> Inr (arg # args)))"

definition buildSafeArguments ::
  "'v Runtime \<Rightarrow> (string \<times> 'v) list \<Rightarrow> Note \<Rightarrow> enhanced_error + string list" where
  "buildSafeArguments rt params note =
     buildArguments rt (map_of params) note (sort (remdups (map fst params)))"

definition getCleanEnvironment :: "'v Runtime \<Rightarrow> string list" where
  "getCleanEnvironment rt =
     [''PATH='' @ Getenv rt ''PATH'', ''TEMP='' @ Getenv rt ''TEMP'', ''TMP='' @ Getenv rt ''TMP''] @
     (if windows rt then [''SystemRoot='' @ Getenv rt ''SystemRoot''] else [])"

record spawn =
  spawnPath :: string
  spawnArgs :: "string list"
  spawnEnv :: "string list"

text \<open>
  \<open>ExecuteContext\<close> up to the start of the child: it returns a validation error without
  starting anything, or starts the command.  The data is \<open>None\<close> when it is not a
  \<open>Detections\<close> value.  Every error on the way is wrapped with the validation category.
\<close>
datatype exec_result = Rejected enhanced_error | Spawned spawn

definition ExecuteContext ::
  "'v Runtime \<Rightarrow> 'v ExecuteCommandAction \<Rightarrow> Detections option \<Rightarrow> exec_result" where
  "ExecuteContext rt a d =
     (case d of
        None \<Rightarrow> Rejected (CategoryValidation, WrongDataType)
      | Some detection \<Rightarrow>
          (case validateCommandPath rt (Command a) of
             Inl err \<Rightarrow> Rejected (CategoryValidation, snd err)
           | Inr cmdPath \<Rightarrow>
               (case buildSafeArguments rt (Params a) (Note detection) of
                  Inl err \<Rightarrow> Rejected (CategoryValidation, snd err)
                | Inr args \<Rightarrow>
                    Spawned \<lparr>spawnPath = cmdPath, spawnArgs = args,
                             spawnEnv = getCleanEnvironment rt\<rparr>)))"

text \<open>
  The character class \<open>[A-Za-z0-9_-]\<close> of the specification, and the names of the
  environment variables it lets through.
\<close>
definition spec_name_char :: "char \<Rightarrow> bool" where
  "spec_name_char c \<longleftrightarrow>
     (CHR ''A'' \<le> c \<and> c \<le> CHR ''Z'') \<or> (CHR ''a'' \<le> c \<and> c \<le> CHR ''z'') \<or>
     (CHR ''0'' \<le> c \<and> c \<le> CHR ''9'') \<or> c = CHR ''_'' \<or> c = CHR ''-''"

definition whitelist :: "'v Runtime \<Rightarrow> string list" where
  "whitelist rt = [''PATH'', ''TEMP'', ''TMP''] @ (if windows rt then [''SystemRoot''] else [])"

text \<open>
  Sample runtimes, for commands whose path is already clean: a Unix one on which
  \<open>/usr/local/bin/notify.sh\<close> has mode \<open>0o755\<close> and \<open>/etc/motd\<close> mode \<open>0o644\<close>, and a Windows
  one on which \<open>notify.txt\<close> in the directory \<open>scripts\<close> of drive \<open>C:\<close> is a regular
  file, of mode \<open>0o666\<close>.
\<close>
definition backslash :: char where
  "backslash = CHR 0x5C"

definition sample_windows_path :: string where
  "sample_windows_path = ''C:'' @ [backslash] @ ''scripts'' @ [backslash] @ ''notify.txt''"

definition sample_unix :: "string Runtime" where
  "sample_unix =
     \<lparr>windows = False,
      Clean = (\<lambda>p. if p = [] then ''.'' else p),
      IsAbs = (\<lambda>p. take 1 p = ''/''),
      Stat = (\<lambda>p. if p = ''/usr/local/bin/notify.sh'' then Inr 493
                    else if p = ''/etc/motd'' then Inr 420 else Inl NotExist),
      Getenv = (\<lambda>n. if n = ''PATH'' then ''/usr/bin:/bin'' else []),
      Sprintf_v = (\<lambda>v. v),
      Sprintf_q = (\<lambda>s. ''\"'' @ s @ ''\"''),
      noteValueByName = (\<lambda>note n. if n = ''CommonName'' then Some (CommonName note) else None)\<rparr>"

definition sample_windows :: "string Runtime" where
  "sample_windows =
     \<lparr>windows = True,
      Clean = (\<lambda>p. if p = [] then ''.'' else p),
      IsAbs = (\<lambda>p. take 3 p = ''C:'' @ [backslash]),
      Stat = (\<lambda>p. if p = sample_windows_path then Inr 438 else Inl NotExist),
      Getenv = (\<lambda>n. if n = ''SystemRoot'' then ''C:'' @ [backslash] @ ''Windows'' else []),
      Sprintf_v = (\<lambda>v. v),
      Sprintf_q = (\<lambda>s. ''\"'' @ s @ ''\"''),
      noteValueByName = (\<lambda>note n. if n = ''CommonName'' then Some (CommonName note) else None)\<rparr>"

definition sample_command :: "string ExecuteCommandAction" where
  "sample_command =
     \<lparr>Command = ''/usr/local/bin/notify.sh'',
      Params = [(''confidence'', ''90''), (''CommonName'', ''unused'')]\<rparr>"

section \<open>Event bus (eventbus.go)\<close>

text \<open>
  A Go channel as \<open>TryPublish\<close> meets it: the buffered events, the capacity, the
  number of receivers blocked on it, and the events handed straight to such receivers.
  A send inside \<open>select\<close> with a \<open>default\<close> branch goes to a blocked receiver if there is
  one, else into the buffer if there is room, else it is not done.
\<close>
record 'e channel =
  buffered :: "'e list"
  capacity :: nat
  receiversWaiting :: nat
  handedOver :: "'e list"

definition trySend :: "'e channel \<Rightarrow> 'e \<Rightarrow> 'e channel option" where
  "trySend ch e =
     (if receiversWaiting ch > 0
      then Some (ch\<lparr>receiversWaiting := receiversWaiting ch - 1, handedOver := handedOver ch @ [e]\<rparr>)
      else if length (buffered ch) < capacity ch
      then Some (ch\<lparr>buffered := buffered ch @ [e]\<rparr>)
      else None)"


text \<open>The counters are \<open>uint64\<close> values updated with \<open>atomic.AddUint64\<close>.\<close>
record EventBusStats =
  EventsReceived :: "64 word"
  EventsSuppressed :: "64 word"
  EventsProcessed :: "64 word"
  EventsDropped :: "64 word"
  ConsumerErrors :: "64 word"
  FastPathHits :: "64 word"

text \<open>
  The fields of \<open>EventBus\<close> that \<open>TryPublish\<close> touches; consumers are known by name.  The
  deduplicator is not part of this file: its state has any type \<open>'d\<close>, and its
  \<open>ShouldProcess\<close> is a parameter that returns the verdict and the state afterwards.
\<close>
record ('e, 'd) EventBus =
  errorEventChan :: "'e channel"
  busInitialized :: bool
  busRunning :: bool
  consumers :: "string list"
  deduplicator :: "'d option"
  stats :: EventBusStats

text \<open>
  \<open>TryPublish\<close>: \<open>flag\<close> is the package variable \<open>hasActiveConsumers\<close>, \<open>eb\<close> the receiver
  (\<open>None\<close> for nil).  The result is the verdict and the bus afterwards.
\<close>
definition TryPublish ::
  "('d \<Rightarrow> 'e \<Rightarrow> bool \<times> 'd) \<Rightarrow> bool \<Rightarrow> ('e, 'd) EventBus option \<Rightarrow> 'e \<Rightarrow>
     bool \<times> ('e, 'd) EventBus option" where
  "TryPublish ShouldProcess flag eb event =
     (if \<not> flag then
        (False,
         map_option (\<lambda>b. b\<lparr>stats := (stats b)\<lparr>FastPathHits := FastPathHits (stats b) + 1\<rparr>\<rparr>) eb)
      else case eb of
        None \<Rightarrow> (False, None)
      | Some b \<Rightarrow>
          if \<not> busInitialized b \<or> \<not> busRunning b then (False, Some b)
          else if \<not> length (consumers b) > 0
          then (False, Some (b\<lparr>stats := (stats b)\<lparr>FastPathHits := FastPathHits (stats b) + 1\<rparr>\<rparr>))
          else
            (let (process, b1) =
                   (case deduplicator b of
                      None \<Rightarrow> (True, b)
                    | Some d \<Rightarrow>
                        (let (ok, d') = ShouldProcess d event
                         in (ok, b\<lparr>deduplicator := Some d'\<rparr>)))
             in if \<not> process
                then (True,
                      Some (b1\<lparr>stats := (stats b1)\<lparr>EventsSuppressed := EventsSuppressed (stats b1) + 1\<rparr>\<rparr>))
                else case trySend (errorEventChan b1) event of
                       Some ch \<Rightarrow>
                         (True,
                          Some (b1\<lparr>errorEventChan := ch,
                                   stats := (stats b1)\<lparr>EventsReceived := EventsReceived (stats b1) + 1\<rparr>\<rparr>))
                     | None \<Rightarrow>
                         (False,
                          Some (b1\<lparr>stats := (stats b1)\<lparr>EventsDropped := EventsDropped (stats b1) + 1\<rparr>\<rparr>))))"




text \<open>
  A sample bus: one consumer, a channel of capacity 1 that holds one event, no receiver
  waiting, and a deduplicator that lets an event through once.
\<close>
definition sample_ShouldProcess :: "string list \<Rightarrow> string \<Rightarrow> bool \<times> string list" where
  "sample_ShouldProcess seen event =
     (if event \<in> set seen then (False, seen) else (True, event # seen))"

definition sample_bus :: "(string, string list) EventBus" where
  "sample_bus =
     \<lparr>errorEventChan = \<lparr>buffered = [''disk full''], capacity = 1, receiversWaiting = 0,
                         handedOver = []\<rparr>,
      busInitialized = True, busRunning = True, consumers = [''telemetry''],
      deduplicator = Some [''disk full''],
      stats = \<lparr>EventsReceived = 1, EventsSuppressed = 0, EventsProcessed = 0,
               EventsDropped = 0, ConsumerErrors = 0, FastPathHits = 0\<rparr>\<rparr>"

section \<open>Composite action\<close>

text \<open>
  The sources hold the tests of \<open>CompositeAction\<close> but not its \<open>Execute\<close>.  The tests fix
  the shape of the value (\<open>Actions\<close>, \<open>Description\<close>, an optional \<open>Timeout\<close>, each possibly
  nil) and that nil entries of \<open>Actions\<close> are skipped.  A sub-action is described by the
  time it takes and by how it ends; times are in milliseconds.
\<close>
datatype ending = Succeeds | Fails | Panics

record SubAction =
  takes :: nat
  ending :: ending

record CompositeAction =
  Actions :: "SubAction option list option"
  Description :: string
  Timeout :: "nat option"

datatype trace_event = Start nat nat | Return nat nat

datatype composite_result = Completed | ActionFailed nat | ActionPanicked nat | TimedOut nat

text \<open>The default timeout, \<open>CompositeActionTimeout\<close>: 30 seconds.\<close>
definition CompositeActionTimeout :: nat where
  "CompositeActionTimeout = 30000"

text \<open>
  Modelled from the spec: the loop of \<open>CompositeAction.Execute\<close>, which is missing from
  the sources.  Section 4.7: sub-actions run strictly in declared order, each starting
  only after the previous one returns, inside a single top-level timeout; the composite
  aborts the remaining actions on the first error or on timeout; a panic in a sub-action
  is caught, converted to an error of the composite, and stops further sub-actions.
  \<open>deadline\<close> is the instant the timeout elapses, \<open>i\<close> the position of the next
  sub-action and \<open>t\<close> the clock; the result is the trace of starts and returns, and the
  outcome.
\<close>
fun runActions ::
  "nat \<Rightarrow> nat \<Rightarrow> nat \<Rightarrow> SubAction option list \<Rightarrow> trace_event list \<times> composite_result" where
  "runActions deadline i t [] = ([], Completed)"
| "runActions deadline i t (None # actions) = runActions deadline (Suc i) t actions"
| "runActions deadline i t (Some a # actions) =
     (if t + takes a > deadline then ([Start i t], TimedOut i)
      else case ending a of
             Fails \<Rightarrow> ([Start i t, Return i (t + takes a)], ActionFailed i)
           | Panics \<Rightarrow> ([Start i t, Return i (t + takes a)], ActionPanicked i)
           | Succeeds \<Rightarrow>
               (let (trace, result) = runActions deadline (Suc i) (t + takes a) actions
                in (Start i t # Return i (t + takes a) # trace, result)))"

text \<open>
  Modelled from the spec: the timeout that \<open>CompositeAction.Execute\<close>, which is missing
  from the sources, applies.  Section 4.7: default 30 s; overridable.
\<close>
definition effectiveTimeout :: "CompositeAction \<Rightarrow> nat" where
  "effectiveTimeout c = (case Timeout c of None \<Rightarrow> CompositeActionTimeout | Some d \<Rightarrow> d)"

text \<open>
  Modelled from the spec: \<open>CompositeAction.Execute\<close>, which is missing from the sources.
  Section 4.7: nil or empty action slices succeed immediately; the timeout is 30 s
  unless overridden.  \<open>None\<close> is the nil composite, \<open>t0\<close> the clock at the call.
\<close>
definition Execute :: "CompositeAction option \<Rightarrow> nat \<Rightarrow> trace_event list \<times> composite_result" where
  "Execute ca t0 =
     (case ca of
        None \<Rightarrow> ([], Completed)
      | Some c \<Rightarrow>
          (case Actions c of
             None \<Rightarrow> ([], Completed)
           | Some actions \<Rightarrow>
               runActions (t0 + effectiveTimeout c) 0 t0 actions))"

text \<open>\<open>y\<close> occurs in the trace after the first occurrence of \<open>x\<close>.\<close>
definition occurs_after :: "trace_event \<Rightarrow> trace_event \<Rightarrow> trace_event list \<Rightarrow> bool" where
  "occurs_after x y trace \<longleftrightarrow> y \<in> set (tl (dropWhile (\<lambda>e. e \<noteq> x) trace))"

definition error_at :: "composite_result \<Rightarrow> nat option" where
  "error_at r =
     (case r of Completed \<Rightarrow> None | ActionFailed i \<Rightarrow> Some i | ActionPanicked i \<Rightarrow> Some i
      | TimedOut i \<Rightarrow> Some i)"

text \<open>
  The time that the sub-actions before position \<open>i\<close> take together, a nil entry taking
  none; and that sub-action \<open>k\<close>, started when the ones before it have returned, succeeds
  before the deadline (a nil entry counts as doing so).
\<close>
definition elapsed :: "SubAction option list \<Rightarrow> nat \<Rightarrow> nat" where
  "elapsed actions i =
     sum_list (map (\<lambda>x. case x of None \<Rightarrow> 0 | Some a \<Rightarrow> takes a) (take i actions))"

definition goes_well :: "nat \<Rightarrow> nat \<Rightarrow> SubAction option list \<Rightarrow> nat \<Rightarrow> bool" where
  "goes_well deadline t0 actions k \<longleftrightarrow>
     (case actions ! k of
        None \<Rightarrow> True
      | Some a \<Rightarrow> ending a = Succeeds \<and> t0 + elapsed actions k + takes a \<le> deadline)"

text \<open>The persist-then-broadcast composite of the tests, and one whose second action panics.\<close>
definition sample_composite :: CompositeAction where
  "sample_composite =
     \<lparr>Actions = Some [Some \<lparr>takes = 300, ending = Succeeds\<rparr>, None,
                      Some \<lparr>takes = 50, ending = Succeeds\<rparr>],
      Description = ''Database save and SSE broadcast (sequential)'', Timeout = None\<rparr>"

definition sample_panicking :: CompositeAction where
  "sample_panicking =
     \<lparr>Actions = Some [Some \<lparr>takes = 50, ending = Succeeds\<rparr>, Some \<lparr>takes = 10, ending = Panics\<rparr>,
                      Some \<lparr>takes = 50, ending = Succeeds\<rparr>],
      Description = ''Test panic recovery'', Timeout = None\<rparr>"

section \<open>Facts about the Go primitives\<close>

lemma int64_id: "- (2 ^ 63) \<le> x \<Longrightarrow> x < 2 ^ 63 \<Longrightarrow> int64 x = x"
  by (simp add: int64_def signed_take_bit_int_eq_self_iff)

lemma seconds_exact: "0 \<le> n \<Longrightarrow> n \<le> 9223372036 \<Longrightarrow> seconds n = n * 1000000000"
  unfolding seconds_def Second_def by (rule int64_id) simp_all


section \<open>Properties of the detection aggregator\<close>

subsection \<open>One aggregation step\<close>

lemma map_of_processDetection_other:
  "k \<noteq> ToLower (CommonName (Note d)) \<Longrightarrow>
   map_of (processDetection ToLower src start now d pd) k = map_of pd k"
  by (simp add: processDetection_def Let_def update_conv' split: option.splits)

lemma map_of_processDetection_new:
  "map_of pd (ToLower (CommonName (Note d))) = None \<Longrightarrow>
   map_of (processDetection ToLower src start now d pd) (ToLower (CommonName (Note d))) =
     Some \<lparr>Detection = d, Confidence = NoteConfidence (Note d), Source = src,
            FirstDetected = start, LastUpdated = zeroTime,
            FlushDeadline = start + 15 * 1000000000, Count = 1\<rparr>"
  by (simp add: processDetection_def Let_def update_conv' time_Add_def delay_def Second_def)

lemma map_of_processDetection_old:
  "map_of pd (ToLower (CommonName (Note d))) = Some e \<Longrightarrow>
   map_of (processDetection ToLower src start now d pd) (ToLower (CommonName (Note d))) =
     Some (if NoteConfidence (Note d) > Confidence e
           then e\<lparr>Detection := d, Confidence := NoteConfidence (Note d), Source := src,
                  LastUpdated := now, Count := Count e + 1\<rparr>
           else e\<lparr>Count := Count e + 1\<rparr>)"
  by (simp add: processDetection_def Let_def update_conv')

lemma distinct_processDetection:
  "distinct (map fst pd) \<Longrightarrow> distinct (map fst (processDetection ToLower src start now d pd))"
  by (simp add: processDetection_def Let_def distinct_update split: option.splits)

text \<open>
  Claim C1, as the code has it.  For every detection that \<open>processDetections\<close> handles,
  keyed by the lowercased common name: when no entry is pending, the new entry has
  \<open>first_detected\<close> equal to the start time of the result, a flush deadline 15 seconds
  later, and count 1 (its \<open>last_updated\<close> is the zero time).  When an entry is pending,
  its count grows by one and its flush deadline and \<open>first_detected\<close> stay; the stored
  detection, source and confidence are replaced exactly when the new confidence exceeds
  the stored one, and \<open>last_updated\<close> becomes the current time in that case only.
\<close>
theorem processDetection_aggregates:
  "(map_of pd (ToLower (CommonName (Note d))) = None \<longrightarrow>
      map_of (processDetection ToLower src start now d pd) (ToLower (CommonName (Note d))) =
        Some \<lparr>Detection = d, Confidence = NoteConfidence (Note d), Source = src,
               FirstDetected = start, LastUpdated = zeroTime,
               FlushDeadline = start + 15 * 1000000000, Count = 1\<rparr>) \<and>
   (\<forall>e. map_of pd (ToLower (CommonName (Note d))) = Some e \<longrightarrow>
      (\<exists>e'. map_of (processDetection ToLower src start now d pd) (ToLower (CommonName (Note d))) = Some e' \<and>
         Count e' = Count e + 1 \<and> FlushDeadline e' = FlushDeadline e \<and>
         FirstDetected e' = FirstDetected e \<and>
         (if NoteConfidence (Note d) > Confidence e
          then Detection e' = d \<and> Source e' = src \<and> Confidence e' = NoteConfidence (Note d) \<and>
               LastUpdated e' = now
          else Detection e' = Detection e \<and> Source e' = Source e \<and>
               Confidence e' = Confidence e \<and> LastUpdated e' = LastUpdated e))) \<and>
   (\<forall>k. k \<noteq> ToLower (CommonName (Note d)) \<longrightarrow>
      map_of (processDetection ToLower src start now d pd) k = map_of pd k)"
  by (simp add: map_of_processDetection_other map_of_processDetection_new
      map_of_processDetection_old)

theorem processDetection_aggregates_witness:
  "map_of [] (asciiToLower (CommonName (Note (sample_detection ''Robin'' (1 / 2))))) = None \<and>
   map_of (processDetection asciiToLower ''mic'' 5 100 (sample_detection ''Robin'' (1 / 2)) [])
       (asciiToLower (CommonName (Note (sample_detection ''Robin'' (1 / 2))))) =
     Some \<lparr>Detection = sample_detection ''Robin'' (1 / 2),
            Confidence = NoteConfidence (Note (sample_detection ''Robin'' (1 / 2))),
            Source = ''mic'', FirstDetected = 5, LastUpdated = zeroTime,
            FlushDeadline = 5 + 15 * 1000000000, Count = 1\<rparr>"
  using processDetection_aggregates [of "[]" asciiToLower "sample_detection ''Robin'' (1 / 2)"
      "''mic''" 5 100]
  by simp

text \<open>
  Claim C1 as stated fails: of three hits for one species, processed at times 100, 200
  and 300 with confidences 0.5, 0.9 and 0.6, the third is counted but leaves
  \<open>last_updated\<close> at 200, the time of the last replacement.
\<close>
theorem last_updated_not_always_set:
  "map_option Count (map_of (processDetections asciiToLower ''mic'' 0 sample_burst []) ''robin'') = Some 3 \<and>
   map_option LastUpdated (map_of (processDetections asciiToLower ''mic'' 0 sample_burst []) ''robin'') =
     Some 200"
  by code_simp

subsection \<open>The invariant of the pending map\<close>

lemma agg_invI:
  "distinct (map fst pd) \<Longrightarrow> (\<And>k. map_of pd k = None \<Longrightarrow> g k = []) \<Longrightarrow>
   (\<And>k e. map_of pd k = Some e \<Longrightarrow> entry_ok e (g k)) \<Longrightarrow> agg_inv (pd, g)"
  by (simp add: agg_inv_def)

lemma agg_invD:
  assumes "agg_inv (pd, g)"
  shows "distinct (map fst pd)" and "map_of pd k = None \<Longrightarrow> g k = []"
    and "map_of pd k = Some e \<Longrightarrow> entry_ok e (g k)"
  using assms by (simp_all add: agg_inv_def)

lemma Max_snoc: "cs \<noteq> [] \<Longrightarrow> Max (set (cs @ [c])) = max (Max (set cs)) (c::rat)"
  by (simp add: max.commute)

lemma agg_inv_hit:
  assumes inv: "agg_inv (pd, g)"
  shows "agg_inv (processDetection ToLower src start now d pd, recordHit ToLower d g)"
proof (rule agg_invI)
  let ?k = "ToLower (CommonName (Note d))"
  let ?c = "NoteConfidence (Note d)"
  have g_other: "recordHit ToLower d g k = g k" if "k \<noteq> ?k" for k
    using that by (simp add: recordHit_def Let_def)
  have g_same: "recordHit ToLower d g ?k = g ?k @ [?c]"
    by (simp add: recordHit_def Let_def)
  show "distinct (map fst (processDetection ToLower src start now d pd))"
    using agg_invD(1)[OF inv] by (rule distinct_processDetection)
  show "recordHit ToLower d g k = []" if none: "map_of (processDetection ToLower src start now d pd) k = None" for k
  proof (cases "k = ?k")
    case True
    then show ?thesis
      using none map_of_processDetection_new[of pd ToLower d src start now]
        map_of_processDetection_old[of pd ToLower d _ src start now]
      by (cases "map_of pd ?k") auto
  next
    case False
    then show ?thesis
      using none agg_invD(2)[OF inv, of k] by (simp add: map_of_processDetection_other g_other)
  qed
  show "entry_ok e (recordHit ToLower d g k)" if some: "map_of (processDetection ToLower src start now d pd) k = Some e" for k e
  proof (cases "k = ?k")
    case False
    then show ?thesis
      using some agg_invD(3)[OF inv, of k e] by (simp add: map_of_processDetection_other g_other)
  next
    case True
    show ?thesis
    proof (cases "map_of pd ?k")
      case None
      have "g ?k = []" using agg_invD(2)[OF inv None] .
      moreover have "e = \<lparr>Detection = d, Confidence = ?c, Source = src,
            FirstDetected = start, LastUpdated = zeroTime,
            FlushDeadline = start + 15 * 1000000000, Count = 1\<rparr>"
        using some True map_of_processDetection_new[where ToLower = ToLower and pd = pd and d = d, OF None, of src start now] by simp
      ultimately show ?thesis using True by (simp add: g_same entry_ok_def)
    next
      case (Some e0)
      have ok: "entry_ok e0 (g ?k)" using agg_invD(3)[OF inv Some] .
      then have ne: "g ?k \<noteq> []" by (simp add: entry_ok_def)
      have e: "e = (if ?c > Confidence e0
           then e0\<lparr>Detection := d, Confidence := ?c, Source := src,
                  LastUpdated := now, Count := Count e0 + 1\<rparr>
           else e0\<lparr>Count := Count e0 + 1\<rparr>)"
        using some True map_of_processDetection_old[where ToLower = ToLower and pd = pd and d = d, OF Some, of src start now] by simp
      have fd: "FlushDeadline e0 = FirstDetected e0 + 15 * 1000000000"
        and cnt: "Count e0 = int (length (g ?k))" and best: "Confidence e0 = Max (set (g ?k))"
        using ok by (simp_all add: entry_ok_def)
      have mx: "Max (set (g ?k @ [?c])) = max (Confidence e0) ?c"
        unfolding best by (rule Max_snoc[OF ne])
      have "entry_ok e (g ?k @ [?c])"
        unfolding entry_ok_def mx using fd cnt by (simp add: e max_def)
      then show ?thesis using True by (simp add: g_same)
    qed
  qed
qed

lemma agg_inv_hits:
  "agg_inv (pd, g) \<Longrightarrow> agg_inv (processDetections ToLower src start ds pd, recordHits ToLower ds g)"
proof (induction ds arbitrary: pd g)
  case Nil
  then show ?case by simp
next
  case (Cons a ds)
  obtain d now where a: "a = (d, now)" by (cases a)
  show ?case using Cons.IH[OF agg_inv_hit[OF Cons.prems, of ToLower src start now d]] a by simp
qed

lemma map_of_flushPending:
  "distinct (map fst pd) \<Longrightarrow>
   map_of (flushPending now pd) k =
     (case map_of pd k of None \<Rightarrow> None
      | Some e \<Rightarrow> if now > FlushDeadline e then None else Some e)"
proof (induction pd)
  case Nil
  then show ?case by (simp add: flushPending_def)
next
  case (Cons a pd)
  obtain k' e' where a: "a = (k', e')" by (cases a)
  have notin: "k' \<notin> fst ` set pd" using Cons.prems a by simp
  have IH: "map_of (flushPending now pd) k =
     (case map_of pd k of None \<Rightarrow> None
      | Some e \<Rightarrow> if now > FlushDeadline e then None else Some e)"
    using Cons by simp
  have none: "map_of pd k' = None" using notin by (simp add: map_of_eq_None_iff)
  show ?case
  proof (cases "k = k'")
    case True
    then show ?thesis using a IH none by (simp add: flushPending_def)
  next
    case False
    then show ?thesis using a IH by (simp add: flushPending_def)
  qed
qed

lemma agg_inv_tick:
  assumes inv: "agg_inv (pd, g)"
  shows "agg_inv (flushPending now pd, forgetFlushed now pd g)"
proof (rule agg_invI)
  have d: "distinct (map fst pd)" using agg_invD(1)[OF inv] .
  show "distinct (map fst (flushPending now pd))"
    using d by (simp add: flushPending_def distinct_map_filter)
  show "forgetFlushed now pd g k = []" if "map_of (flushPending now pd) k = None" for k
    using that agg_invD(2)[OF inv, of k]
    by (cases "map_of pd k") (simp_all add: map_of_flushPending[OF d] forgetFlushed_def split: if_splits)
  show "entry_ok e (forgetFlushed now pd g k)" if "map_of (flushPending now pd) k = Some e" for k e
    using that agg_invD(3)[OF inv, of k]
    by (cases "map_of pd k") (simp_all add: map_of_flushPending[OF d] forgetFlushed_def split: if_splits)
qed

lemma agg_inv_step: "agg_inv s \<Longrightarrow> agg_inv (step ToLower e s)"
proof (cases s)
  case (Pair pd g)
  assume "agg_inv s"
  then show ?thesis using Pair
    by (cases e) (simp_all add: agg_inv_hits agg_inv_tick)
qed

lemma agg_inv_run: "agg_inv s \<Longrightarrow> agg_inv (run ToLower es s)"
  by (induction es arbitrary: s) (simp_all add: agg_inv_step)

lemma agg_inv_initial: "agg_inv initial"
  by (simp add: agg_inv_def initial_def)

text \<open>
  Claim C2, as the code has it.  After any sequence of \<open>processDetections\<close> calls and
  flusher ticks from the empty map, every pending entry has its flush deadline 15 seconds
  after \<open>first_detected\<close> (so \<open>first_detected\<close> is not after it), a count of at least one
  that is the number of hits aggregated into the entry, and as confidence the greatest
  confidence among those hits.  Nothing is promised about \<open>last_updated\<close>.
\<close>
theorem pending_entry_invariant:
  assumes "map_of (fst (run ToLower es initial)) k = Some e"
  shows "FlushDeadline e = FirstDetected e + 15 * 1000000000 \<and>
     FirstDetected e \<le> FlushDeadline e \<and>
     Count e \<ge> 1 \<and>
     Count e = int (length (snd (run ToLower es initial) k)) \<and>
     Confidence e = Max (set (snd (run ToLower es initial) k))"
proof -
  obtain pd g where r: "run ToLower es initial = (pd, g)" by (cases "run ToLower es initial")
  have "agg_inv (pd, g)" using agg_inv_run[OF agg_inv_initial, of ToLower es] r by simp
  then have "entry_ok e (g k)" using assms r agg_invD(3) by simp
  then show ?thesis using r by (cases "g k") (simp_all add: entry_ok_def)
qed

theorem pending_entry_invariant_witness:
  "map_of (fst (run asciiToLower [Process ''mic'' 0 sample_burst, Tick 1000] initial)) ''robin'' = Some sample_entry \<and>
   (FlushDeadline sample_entry = FirstDetected sample_entry + 15 * 1000000000 \<and>
    FirstDetected sample_entry \<le> FlushDeadline sample_entry \<and>
    Count sample_entry \<ge> 1 \<and>
    Count sample_entry =
      int (length (snd (run asciiToLower [Process ''mic'' 0 sample_burst, Tick 1000] initial) ''robin'')) \<and>
    Confidence sample_entry =
      Max (set (snd (run asciiToLower [Process ''mic'' 0 sample_burst, Tick 1000] initial) ''robin'')))"
proof -
  have h: "map_of (fst (run asciiToLower [Process ''mic'' 0 sample_burst, Tick 1000] initial)) ''robin'' =
      Some sample_entry"
    by code_simp
  show ?thesis by (rule conjI [OF h pending_entry_invariant [OF h]])
qed

text \<open>
  Claim C2 as stated fails: the entry created by the first hit of a result that started at
  time 0 has the zero time as \<open>last_updated\<close>, which is before its \<open>first_detected\<close>.
\<close>
theorem first_detected_after_last_updated:
  "map_option FirstDetected
     (map_of (fst (run asciiToLower [Process ''mic'' 0 [(sample_detection ''Robin'' (1 / 2), 100)]] initial))
        ''robin'') = Some 0 \<and>
   map_option LastUpdated
     (map_of (fst (run asciiToLower [Process ''mic'' 0 [(sample_detection ''Robin'' (1 / 2), 100)]] initial))
        ''robin'') = Some zeroTime \<and>
   zeroTime < 0"
  by code_simp

subsection \<open>The flusher tick\<close>

lemma minDetections_spec: "minDetections overlap = spec_min_detections overlap"
proof -
  let ?x = "3 / max (1 / 10) (3 - overlap)"
  show ?thesis
  proof (cases "1 \<le> ?x")
    case True
    then have "1 \<le> \<lfloor>?x\<rfloor>" by (simp add: le_floor_iff)
    then show ?thesis using True by (simp add: minDetections_def spec_min_detections_def Let_def max_def)
  next
    case False
    then have "\<lfloor>?x\<rfloor> < 1" by (simp add: floor_less_iff)
    then show ?thesis using False by (simp add: minDetections_def spec_min_detections_def Let_def max_def)
  qed
qed

lemma shouldDiscard_spec:
  "fst (shouldDiscardDetection p item (minDetections (Overlap p))) = spec_discard p item"
  by (simp add: shouldDiscardDetection_def spec_discard_def dog_bark_matches_def Let_def
      minDetections_spec)

lemma offerAll_append:
  "offerAll enqueue (xs @ ys) q =
     (fst (offerAll enqueue ys (fst (offerAll enqueue xs q))),
      snd (offerAll enqueue xs q) @ snd (offerAll enqueue ys (fst (offerAll enqueue xs q))))"
proof (induction xs arbitrary: q)
  case Nil
  show ?case by simp
next
  case (Cons a xs)
  obtain species t where a: "a = (species, t)" by (cases a)
  show ?case
    unfolding a by (simp add: Cons.IH split: prod.splits option.splits)
qed

lemma enqueueActions_offerAll:
  "enqueueActions p species det acts q =
     (fst (offerAll (EnqueueTask p)
             (map (\<lambda>action. (species, \<lparr>TaskDetection = det, TaskAction = action\<rparr>)) acts) q),
      map refusal_line
        (snd (offerAll (EnqueueTask p)
                (map (\<lambda>action. (species, \<lparr>TaskDetection = det, TaskAction = action\<rparr>)) acts) q)))"
  by (induction acts arbitrary: q)
     (simp_all add: refusal_line_def split: prod.splits option.splits)

lemma processApproved_spec:
  "processApprovedDetection p item species q =
     (fst (offerAll (EnqueueTask p) (map (Pair species) (spec_tasks p item)) q),
      Approving species (Source item) (Count item) #
      map refusal_line (snd (offerAll (EnqueueTask p) (map (Pair species) (spec_tasks p item)) q)))"
  by (simp add: processApprovedDetection_def spec_tasks_def Let_def enqueueActions_offerAll
      comp_def)

lemma refusal_line_kind [simp]:
  "is_refusal (refusal_line r)" "\<not> is_discarding (refusal_line r)" "\<not> is_approving (refusal_line r)"
  by (auto simp: refusal_line_def split: prod.splits)

lemma filter_refusal_lines [simp]:
  "filter is_refusal (map refusal_line rs) = map refusal_line rs"
  "filter is_discarding (map refusal_line rs) = []"
  "filter is_approving (map refusal_line rs) = []"
  by (induction rs) simp_all

lemma flushEntries_Cons:
  "flushEntries p m now ((species, item) # rest) q =
     (if now > FlushDeadline item then
        (if fst (shouldDiscardDetection p item m)
         then (fst (flushEntries p m now rest q), fst (snd (flushEntries p m now rest q)),
               Discarding species (Source item) (snd (shouldDiscardDetection p item m)) #
               snd (snd (flushEntries p m now rest q)))
         else (fst (flushEntries p m now rest (fst (processApprovedDetection p item species q))),
               fst (snd (flushEntries p m now rest (fst (processApprovedDetection p item species q)))),
               snd (processApprovedDetection p item species q) @
               snd (snd (flushEntries p m now rest (fst (processApprovedDetection p item species q))))))
      else ((species, item) # fst (flushEntries p m now rest q),
            fst (snd (flushEntries p m now rest q)), snd (snd (flushEntries p m now rest q))))"
  by (simp add: Let_def split: prod.splits bool.splits)

text \<open>The tick body against the rule: what is kept, the queue, and the lines by kind.\<close>
lemma flushEntries_spec:
  fixes p :: "('a, 'q) Processor" and now :: time
  defines "offers \<equiv> \<lambda>pd. concat (map (\<lambda>(species, item). map (Pair species) (spec_tasks p item))
             (filter (\<lambda>(species, item). now > FlushDeadline item \<and> \<not> spec_discard p item) pd))"
  shows "fst (flushEntries p (minDetections (Overlap p)) now pd q) = flushPending now pd \<and>
     fst (snd (flushEntries p (minDetections (Overlap p)) now pd q)) =
       fst (offerAll (EnqueueTask p) (offers pd) q) \<and>
     filter is_refusal (snd (snd (flushEntries p (minDetections (Overlap p)) now pd q))) =
       map refusal_line (snd (offerAll (EnqueueTask p) (offers pd) q)) \<and>
     filter is_discarding (snd (snd (flushEntries p (minDetections (Overlap p)) now pd q))) =
       map (\<lambda>(species, item).
              Discarding species (Source item)
                (snd (shouldDiscardDetection p item (minDetections (Overlap p)))))
         (filter (\<lambda>(species, item). now > FlushDeadline item \<and> spec_discard p item) pd) \<and>
     filter is_approving (snd (snd (flushEntries p (minDetections (Overlap p)) now pd q))) =
       map (\<lambda>(species, item). Approving species (Source item) (Count item))
         (filter (\<lambda>(species, item). now > FlushDeadline item \<and> \<not> spec_discard p item) pd)"
proof (induction pd arbitrary: q)
  case Nil
  then show ?case by (simp add: flushPending_def offers_def)
next
  case (Cons a pd)
  obtain species item where a: "a = (species, item)" by (cases a)
  let ?m = "minDetections (Overlap p)"
  show ?case
  proof (cases "now > FlushDeadline item")
    case False
    have off: "offers ((species, item) # pd) = offers pd"
      using False by (simp add: offers_def)
    show ?thesis
      unfolding a off flushEntries_Cons using Cons.IH[of q] False
      by (simp add: flushPending_def)
  next
    case True
    show ?thesis
    proof (cases "spec_discard p item")
      case d: True
      have off: "offers ((species, item) # pd) = offers pd"
        using d by (simp add: offers_def)
      show ?thesis
        unfolding a off flushEntries_Cons using Cons.IH[of q] True d
        by (simp add: shouldDiscard_spec flushPending_def)
    next
      case d: False
      let ?q1 = "fst (offerAll (EnqueueTask p) (map (Pair species) (spec_tasks p item)) q)"
      have off: "offers ((species, item) # pd) = map (Pair species) (spec_tasks p item) @ offers pd"
        using True d by (simp add: offers_def)
      show ?thesis
        unfolding a off offerAll_append flushEntries_Cons using Cons.IH[of ?q1] True d
        by (simp add: shouldDiscard_spec processApproved_spec flushPending_def)
    qed
  qed
qed

lemma offerAll_bounded:
  "offerAll (boundedEnqueue limit) ts q =
     (q @ take (limit - length q) (map snd ts),
      map (\<lambda>(species, t). (species, t, ''worker queue is full'')) (drop (limit - length q) ts))"
proof (induction ts arbitrary: q)
  case Nil
  show ?case by simp
next
  case (Cons a ts)
  obtain species t where a: "a = (species, t)" by (cases a)
  show ?case
  proof (cases "length q < limit")
    case True
    then have c: "limit - length q = Suc (limit - length (q @ [t]))" by simp
    have e: "boundedEnqueue limit q t = (None, q @ [t])"
      using True by (simp add: boundedEnqueue_def)
    show ?thesis
      unfolding a c by (simp add: e Cons.IH[of "q @ [t]"] del: length_append)
  next
    case False
    then have c: "limit - length q = 0" by simp
    have e: "boundedEnqueue limit q t = (Some ''worker queue is full'', q)"
      using False by (simp add: boundedEnqueue_def)
    have "offerAll (boundedEnqueue limit) ts q =
        (q, map (\<lambda>(species, t). (species, t, ''worker queue is full'')) ts)"
      using Cons.IH[of q] c by simp
    then show ?thesis
      unfolding a c by (simp add: e)
  qed
qed

lemma flusherTick_unfold:
  "flusherTick p now =
     (p\<lparr>pendingDetections := fst (flushEntries p (minDetections (Overlap p)) now (pendingDetections p) (JobQueue p)),
        JobQueue := fst (snd (flushEntries p (minDetections (Overlap p)) now (pendingDetections p) (JobQueue p)))\<rparr>,
      snd (snd (flushEntries p (minDetections (Overlap p)) now (pendingDetections p) (JobQueue p))))"
  by (simp add: flusherTick_def split: prod.splits)

text \<open>
  Claim C4, as the code has it.  A flusher tick removes from the map exactly the entries
  whose flush deadline has passed.  Of those, the entries that meet the discard rule of the
  specification (count below the minimum, or privacy filter enabled with a human detection
  on the entry's source after \<open>first_detected\<close>, or a dog-bark match) are logged as
  discarded and offer nothing to the job queue; every other one is logged as approved and
  offers one task per planned action, in order, each carrying the detection with
  \<open>begin_time\<close> set to \<open>first_detected\<close>.  A task that \<open>EnqueueTask\<close> accepts is in the
  queue as \<open>EnqueueTask\<close> leaves it; a task that it refuses is logged and dropped, and the
  entry is removed all the same.  With the bounded queue of the specification, the queue
  after the tick is the queue before followed by the offered tasks up to the capacity, and
  the tasks beyond the capacity are the ones logged as dropped; so when the offered tasks
  fit, one task per planned action is enqueued.  The minimum computed by the flusher is
  \<open>max(1, floor(3 / max(0.1, 3 - overlap)))\<close>, and \<open>shouldDiscardDetection\<close> decides the
  discard rule.
\<close>
theorem flusherTick_rule:
  "pendingDetections (fst (flusherTick p now)) = flushPending now (pendingDetections p) \<and>
   filter is_discarding (snd (flusherTick p now)) =
     map (\<lambda>(species, item).
            Discarding species (Source item)
              (snd (shouldDiscardDetection p item (minDetections (Overlap p)))))
       (spec_discarded p now) \<and>
   filter is_approving (snd (flusherTick p now)) =
     map (\<lambda>(species, item). Approving species (Source item) (Count item)) (spec_approved p now) \<and>
   JobQueue (fst (flusherTick p now)) =
     fst (offerAll (EnqueueTask p) (spec_offers p now) (JobQueue p)) \<and>
   filter is_refusal (snd (flusherTick p now)) =
     map refusal_line (snd (offerAll (EnqueueTask p) (spec_offers p now) (JobQueue p))) \<and>
   (\<forall>limit. EnqueueTask p = boundedEnqueue limit \<longrightarrow>
      JobQueue (fst (flusherTick p now)) =
        JobQueue p @ take (limit - length (JobQueue p)) (map snd (spec_offers p now)) \<and>
      filter is_refusal (snd (flusherTick p now)) =
        map (QueueFull \<circ> fst) (drop (limit - length (JobQueue p)) (spec_offers p now))) \<and>
   minDetections (Overlap p) = spec_min_detections (Overlap p) \<and>
   (\<forall>item. fst (shouldDiscardDetection p item (minDetections (Overlap p))) = spec_discard p item)"
proof -
  note fe = flushEntries_spec[of p now "pendingDetections p" "JobQueue p",
      folded spec_approved_def spec_discarded_def, folded spec_offers_def]
  have 1: "pendingDetections (fst (flusherTick p now)) = flushPending now (pendingDetections p)"
    using fe by (simp add: flusherTick_unfold)
  have 2: "filter is_discarding (snd (flusherTick p now)) =
     map (\<lambda>(species, item).
            Discarding species (Source item)
              (snd (shouldDiscardDetection p item (minDetections (Overlap p)))))
       (spec_discarded p now)"
    using fe by (simp add: flusherTick_unfold)
  have 3: "filter is_approving (snd (flusherTick p now)) =
     map (\<lambda>(species, item). Approving species (Source item) (Count item)) (spec_approved p now)"
    using fe by (simp add: flusherTick_unfold)
  have 4: "JobQueue (fst (flusherTick p now)) =
     fst (offerAll (EnqueueTask p) (spec_offers p now) (JobQueue p))"
    using fe by (simp add: flusherTick_unfold)
  have 5: "filter is_refusal (snd (flusherTick p now)) =
     map refusal_line (snd (offerAll (EnqueueTask p) (spec_offers p now) (JobQueue p)))"
    using fe by (simp add: flusherTick_unfold)
  have 6: "JobQueue (fst (flusherTick p now)) =
        JobQueue p @ take (limit - length (JobQueue p)) (map snd (spec_offers p now)) \<and>
      filter is_refusal (snd (flusherTick p now)) =
        map (QueueFull \<circ> fst) (drop (limit - length (JobQueue p)) (spec_offers p now))"
    if "EnqueueTask p = boundedEnqueue limit" for limit
    unfolding 4 5 that offerAll_bounded
    by (simp add: refusal_line_def comp_def split_def)
  show ?thesis
    using 1 2 3 4 5 6 minDetections_spec[of "Overlap p"] shouldDiscard_spec[of p] by blast
qed

theorem flusherTick_rule_witness:
  "EnqueueTask (sample_processor 3) = boundedEnqueue 3 \<and>
   pendingDetections (fst (flusherTick (sample_processor 3) 15000000001)) = [] \<and>
   filter is_discarding (snd (flusherTick (sample_processor 3) 15000000001)) =
     [Discarding ''wren'' ''mic'' (FalsePositive 1 2)] \<and>
   filter is_approving (snd (flusherTick (sample_processor 3) 15000000001)) =
     [Approving ''robin'' ''mic'' 3] \<and>
   map TaskAction (JobQueue (fst (flusherTick (sample_processor 3) 15000000001))) =
     [''log'', ''database''] \<and>
   map (BeginTime \<circ> Note \<circ> TaskDetection)
     (JobQueue (fst (flusherTick (sample_processor 3) 15000000001))) = [0, 0] \<and>
   filter is_refusal (snd (flusherTick (sample_processor 3) 15000000001)) = []"
proof -
  note r = flusherTick_rule [of "sample_processor 3" 15000000001]
  have h: "EnqueueTask (sample_processor 3) = boundedEnqueue 3"
    by (simp add: sample_processor_def)
  have 1: "flushPending 15000000001 (pendingDetections (sample_processor 3)) = []"
    by code_simp
  have 2: "map (\<lambda>(species, item).
            Discarding species (Source item)
              (snd (shouldDiscardDetection (sample_processor 3) item
                      (minDetections (Overlap (sample_processor 3))))))
       (spec_discarded (sample_processor 3) 15000000001) =
      [Discarding ''wren'' ''mic'' (FalsePositive 1 2)]"
    by code_simp
  have 3: "map (\<lambda>(species, item). Approving species (Source item) (Count item))
       (spec_approved (sample_processor 3) 15000000001) = [Approving ''robin'' ''mic'' 3]"
    by code_simp
  have 4: "map TaskAction (JobQueue (sample_processor 3) @
       take (3 - length (JobQueue (sample_processor 3)))
         (map snd (spec_offers (sample_processor 3) 15000000001))) = [''log'', ''database'']"
    by code_simp
  have 5: "map (BeginTime \<circ> Note \<circ> TaskDetection) (JobQueue (sample_processor 3) @
       take (3 - length (JobQueue (sample_processor 3)))
         (map snd (spec_offers (sample_processor 3) 15000000001))) = [0, 0]"
    by code_simp
  have 6: "map (QueueFull \<circ> fst)
       (drop (3 - length (JobQueue (sample_processor 3)))
          (spec_offers (sample_processor 3) 15000000001)) = []"
    by code_simp
  have b: "JobQueue (fst (flusherTick (sample_processor 3) 15000000001)) =
        JobQueue (sample_processor 3) @
          take (3 - length (JobQueue (sample_processor 3)))
            (map snd (spec_offers (sample_processor 3) 15000000001)) \<and>
      filter is_refusal (snd (flusherTick (sample_processor 3) 15000000001)) =
        map (QueueFull \<circ> fst)
          (drop (3 - length (JobQueue (sample_processor 3)))
             (spec_offers (sample_processor 3) 15000000001))"
    using r h by blast
  show ?thesis
    using h r [THEN conjunct1] r [THEN conjunct2, THEN conjunct1]
      r [THEN conjunct2, THEN conjunct2, THEN conjunct1] b
    unfolding 1 2 3 by (simp only: 4 5 6 simp_thms)
qed

text \<open>
  Claim C4 as stated fails when the job queue is full.  The entry for \<open>robin\<close> has passed
  its deadline and meets none of the three discard conditions, and two actions are planned
  for it.  With room for one task only, the first task is enqueued and the second is
  logged and dropped; with no room at all, no task is enqueued.  In both cases the entry
  is removed from the map.
\<close>
theorem flusherTick_queue_full:
  "map_of (pendingDetections (sample_processor 1)) ''robin'' = Some sample_entry \<and>
   15000000001 > FlushDeadline sample_entry \<and>
   \<not> spec_discard (sample_processor 1) sample_entry \<and>
   map TaskAction (spec_tasks (sample_processor 1) sample_entry) = [''log'', ''database''] \<and>
   pendingDetections (fst (flusherTick (sample_processor 1) 15000000001)) = [] \<and>
   map TaskAction (JobQueue (fst (flusherTick (sample_processor 1) 15000000001))) = [''log''] \<and>
   filter is_refusal (snd (flusherTick (sample_processor 1) 15000000001)) = [QueueFull ''robin''] \<and>
   \<not> spec_discard (sample_processor 0) sample_entry \<and>
   pendingDetections (fst (flusherTick (sample_processor 0) 15000000001)) = [] \<and>
   JobQueue (fst (flusherTick (sample_processor 0) 15000000001)) = []"
  by code_simp
section \<open>Properties of the event tracker\<close>

lemma effective_timeout_spec:
  assumes "\<forall>n. override_interval ToLower et species = Some n \<longrightarrow> n \<le> 9223372036"
  shows "(case SpeciesConfigs et (ToLower species) of
            Some speciesConfig \<Rightarrow>
              if Interval speciesConfig > 0 then seconds (Interval speciesConfig)
              else DefaultInterval et
          | None \<Rightarrow> DefaultInterval et) = spec_effective_interval ToLower et species"
  using assms
  by (auto simp: spec_effective_interval_def override_interval_def seconds_exact split: option.splits)

lemma TrackEvent_unfold:
  assumes h: "Handlers et eventType = Some h"
  shows "TrackEvent ToLower et species eventType now now' =
    (let timeout = (case SpeciesConfigs et (ToLower species) of
            Some speciesConfig \<Rightarrow>
              if Interval speciesConfig > 0 then seconds (Interval speciesConfig)
              else DefaultInterval et
          | None \<Rightarrow> DefaultInterval et);
         r = shouldHandleEventLocked ToLower h (ToLower species) timeout now now'
     in (fst r,
         (case SpeciesConfigs et (ToLower species) of
            Some speciesConfig \<Rightarrow>
              if Interval speciesConfig < 0
              then [NegativeIntervalWarning (Interval speciesConfig) species] else []
          | None \<Rightarrow> []),
         et\<lparr>Handlers := (Handlers et)(eventType \<mapsto> snd r)\<rparr>))"
  using h by (simp add: TrackEvent_def Let_def split: option.splits prod.splits)

lemma shouldHandle_standard:
  assumes "BehaviorFunc h = StandardEventBehavior"
  shows "shouldHandleEventLocked ToLower h name timeout now now' =
     (if LastEventTime h (ToLower name) = None \<or>
         (\<exists>last. LastEventTime h (ToLower name) = Some last \<and> time_Sub now last \<ge> timeout)
      then (True, h\<lparr>LastEventTime := (LastEventTime h)(ToLower name \<mapsto> now')\<rparr>)
      else (False, h))"
  using assms
  by (auto simp: shouldHandleEventLocked_def Let_def StandardEventBehavior_def
      split: option.splits)

text \<open>
  The constructors register a handler with the standard behaviour for each of the six
  declared event types, and \<open>TrackEvent\<close> keeps the handlers and their behaviour.
\<close>
lemma initEventTracker_handlers:
  assumes "eventType \<in> {DatabaseSave, LogToFile, SendNotification, BirdWeatherSubmit,
             MQTTPublish, SSEBroadcast}"
  shows "Handlers (initEventTracker ToLower interval speciesConfigs) eventType =
           Some (NewEventHandler interval StandardEventBehavior)"
  using assms
  by (auto simp: initEventTracker_def DatabaseSave_def LogToFile_def SendNotification_def
      BirdWeatherSubmit_def MQTTPublish_def SSEBroadcast_def)

lemma TrackEvent_keeps_handlers:
  assumes "Handlers et ty = Some h"
  shows "\<exists>h'. Handlers (snd (snd (TrackEvent ToLower et species eventType now now'))) ty = Some h' \<and>
              BehaviorFunc h' = BehaviorFunc h"
proof (cases "Handlers et eventType")
  case None
  then show ?thesis using assms by (simp add: TrackEvent_def)
next
  case (Some h0)
  show ?thesis
    using assms Some
    by (auto simp: TrackEvent_unfold[OF Some] Let_def shouldHandleEventLocked_def
        split: option.splits)
qed

lemma TrackEvent_no_handler:
  "Handlers et eventType = None \<Longrightarrow>
   TrackEvent ToLower et species eventType now now' = (False, [], et)"
  by (simp add: TrackEvent_def)

lemma TrackEvent_standard:
  assumes h: "Handlers et eventType = Some h"
    and std: "BehaviorFunc h = StandardEventBehavior"
    and fits: "\<forall>n. override_interval ToLower et species = Some n \<longrightarrow> n \<le> 9223372036"
  shows "(fst (TrackEvent ToLower et species eventType now now') \<longleftrightarrow>
            lastEvent et (ToLower (ToLower species)) eventType = None \<or>
            (\<exists>last. lastEvent et (ToLower (ToLower species)) eventType = Some last \<and>
                    time_Sub now last \<ge> spec_effective_interval ToLower et species)) \<and>
         (fst (TrackEvent ToLower et species eventType now now') \<longrightarrow>
            lastEvent (snd (snd (TrackEvent ToLower et species eventType now now')))
              (ToLower (ToLower species)) eventType = Some now' \<and>
            (\<forall>k ty. k \<noteq> ToLower (ToLower species) \<or> ty \<noteq> eventType \<longrightarrow>
               lastEvent (snd (snd (TrackEvent ToLower et species eventType now now'))) k ty =
               lastEvent et k ty)) \<and>
         (\<not> fst (TrackEvent ToLower et species eventType now now') \<longrightarrow>
            snd (snd (TrackEvent ToLower et species eventType now now')) = et) \<and>
         (fst (snd (TrackEvent ToLower et species eventType now now')) \<noteq> [] \<longleftrightarrow>
            (\<exists>n. override_interval ToLower et species = Some n \<and> n < 0))"
proof -
  let ?T = "spec_effective_interval ToLower et species"
  let ?c = "ToLower species"
  let ?k = "ToLower (ToLower species)"
  let ?ok = "LastEventTime h ?k = None \<or> (\<exists>last. LastEventTime h ?k = Some last \<and> time_Sub now last \<ge> ?T)"
  have T: "TrackEvent ToLower et species eventType now now' =
      (let r = (if ?ok then (True, h\<lparr>LastEventTime := (LastEventTime h)(?k \<mapsto> now')\<rparr>) else (False, h))
       in (fst r,
         (case SpeciesConfigs et ?c of
            Some speciesConfig \<Rightarrow>
              if Interval speciesConfig < 0
              then [NegativeIntervalWarning (Interval speciesConfig) species] else []
          | None \<Rightarrow> []),
         et\<lparr>Handlers := (Handlers et)(eventType \<mapsto> snd r)\<rparr>))"
    unfolding TrackEvent_unfold[OF h] effective_timeout_spec[OF fits] shouldHandle_standard[OF std]
    by (simp add: Let_def)
  have same: "et\<lparr>Handlers := (Handlers et)(eventType \<mapsto> h)\<rparr> = et"
    using h by (simp add: map_upd_triv)
  have Tok: "TrackEvent ToLower et species eventType now now' =
      (True,
       (case SpeciesConfigs et ?c of
            Some speciesConfig \<Rightarrow>
              if Interval speciesConfig < 0
              then [NegativeIntervalWarning (Interval speciesConfig) species] else []
          | None \<Rightarrow> []),
       et\<lparr>Handlers := (Handlers et)(eventType \<mapsto>
            h\<lparr>LastEventTime := (LastEventTime h)(?k \<mapsto> now')\<rparr>)\<rparr>)" if "?ok"
    unfolding T using that by (simp only: if_True Let_def fst_conv snd_conv)
  have Tno: "TrackEvent ToLower et species eventType now now' =
      (False,
       (case SpeciesConfigs et ?c of
            Some speciesConfig \<Rightarrow>
              if Interval speciesConfig < 0
              then [NegativeIntervalWarning (Interval speciesConfig) species] else []
          | None \<Rightarrow> []),
       et)" if "\<not> ?ok"
    unfolding T using that by (simp only: if_False Let_def fst_conv snd_conv same)
  have 1: "fst (TrackEvent ToLower et species eventType now now') \<longleftrightarrow> ?ok"
    using Tok Tno by (cases "?ok") simp_all
  have 2: "lastEvent (snd (snd (TrackEvent ToLower et species eventType now now'))) ?k eventType = Some now'"
    if "fst (TrackEvent ToLower et species eventType now now')"
  proof -
    have "?ok" using that 1 by simp
    then show ?thesis by (simp add: Tok lastEvent_def)
  qed
  have 3: "lastEvent (snd (snd (TrackEvent ToLower et species eventType now now'))) k ty = lastEvent et k ty"
    if "k \<noteq> ?k \<or> ty \<noteq> eventType" for k ty
  proof (cases "?ok")
    case True
    show ?thesis using that h by (auto simp: Tok[OF True] lastEvent_def)
  next
    case False
    show ?thesis by (simp add: Tno[OF False])
  qed
  have 4: "snd (snd (TrackEvent ToLower et species eventType now now')) = et"
    if "\<not> fst (TrackEvent ToLower et species eventType now now')"
  proof -
    have "\<not> ?ok" using that 1 by simp
    then show ?thesis by (simp add: Tno)
  qed
  have 5: "fst (snd (TrackEvent ToLower et species eventType now now')) \<noteq> [] \<longleftrightarrow>
            (\<exists>n. override_interval ToLower et species = Some n \<and> n < 0)"
    by (cases "?ok") (simp_all add: Tok Tno override_interval_def split: option.splits)
  have le: "lastEvent et ?k eventType = LastEventTime h ?k"
    using h by (simp add: lastEvent_def)
  show ?thesis
    unfolding le using 1 2 3 4 5 unfolding le by blast
qed

text \<open>
  Claim C3, as the code has it, for any lowercasing function.  The key of a species is its
  name lowercased by \<open>TrackEvent\<close> and again by the handler.

  \<^item> When no handler is registered for the event type, \<open>TrackEvent\<close> returns false, logs
    nothing and leaves the tracker as it was.
  \<^item> When a handler with the standard behaviour is registered for the event type, and the
    per-species override, if any, is at most 9223372036 seconds (so that it fits a 64-bit
    count of nanoseconds): \<open>TrackEvent\<close> returns true if and only if no time is recorded
    for the species under that event type, or the time since the recorded one (as
    \<open>Time.Sub\<close> computes it) is at least the effective interval, which is the override in
    seconds when positive and the global default otherwise.  When it returns true it
    records the current time for that species and event type and changes no other record;
    when it returns false the tracker is unchanged.  A warning is logged exactly when the
    override is negative.
  \<^item> The constructors register a handler with the standard behaviour, and no time
    recorded, for each of the six declared event types.
  \<^item> \<open>TrackEvent\<close> keeps every handler registered, with its behaviour.
\<close>
theorem TrackEvent_rule:
  "(Handlers et eventType = None \<longrightarrow>
      TrackEvent ToLower et species eventType now now' = (False, [], et)) \<and>
   (\<forall>h. Handlers et eventType = Some h \<and> BehaviorFunc h = StandardEventBehavior \<and>
        (\<forall>n. override_interval ToLower et species = Some n \<longrightarrow> n \<le> 9223372036) \<longrightarrow>
      (fst (TrackEvent ToLower et species eventType now now') \<longleftrightarrow>
         lastEvent et (ToLower (ToLower species)) eventType = None \<or>
         (\<exists>last. lastEvent et (ToLower (ToLower species)) eventType = Some last \<and>
                 time_Sub now last \<ge> spec_effective_interval ToLower et species)) \<and>
      (fst (TrackEvent ToLower et species eventType now now') \<longrightarrow>
         lastEvent (snd (snd (TrackEvent ToLower et species eventType now now')))
           (ToLower (ToLower species)) eventType = Some now' \<and>
         (\<forall>k ty. k \<noteq> ToLower (ToLower species) \<or> ty \<noteq> eventType \<longrightarrow>
            lastEvent (snd (snd (TrackEvent ToLower et species eventType now now'))) k ty =
            lastEvent et k ty)) \<and>
      (\<not> fst (TrackEvent ToLower et species eventType now now') \<longrightarrow>
         snd (snd (TrackEvent ToLower et species eventType now now')) = et) \<and>
      (fst (snd (TrackEvent ToLower et species eventType now now')) \<noteq> [] \<longleftrightarrow>
         (\<exists>n. override_interval ToLower et species = Some n \<and> n < 0))) \<and>
   (\<forall>interval speciesConfigs.
      eventType \<in> {DatabaseSave, LogToFile, SendNotification, BirdWeatherSubmit, MQTTPublish,
                   SSEBroadcast} \<longrightarrow>
      (\<exists>h. Handlers (NewEventTrackerWithConfig ToLower interval speciesConfigs) eventType = Some h \<and>
           Handlers (NewEventTracker ToLower interval) eventType = Some h \<and>
           BehaviorFunc h = StandardEventBehavior \<and> LastEventTime h = Map.empty)) \<and>
   (\<forall>ty h. Handlers et ty = Some h \<longrightarrow>
      (\<exists>h'. Handlers (snd (snd (TrackEvent ToLower et species eventType now now'))) ty = Some h' \<and>
            BehaviorFunc h' = BehaviorFunc h))"
proof (intro conjI)
  show "Handlers et eventType = None \<longrightarrow>
      TrackEvent ToLower et species eventType now now' = (False, [], et)"
    by (simp add: TrackEvent_no_handler)
next
  show "\<forall>h. Handlers et eventType = Some h \<and> BehaviorFunc h = StandardEventBehavior \<and>
        (\<forall>n. override_interval ToLower et species = Some n \<longrightarrow> n \<le> 9223372036) \<longrightarrow>
      (fst (TrackEvent ToLower et species eventType now now') \<longleftrightarrow>
         lastEvent et (ToLower (ToLower species)) eventType = None \<or>
         (\<exists>last. lastEvent et (ToLower (ToLower species)) eventType = Some last \<and>
                 time_Sub now last \<ge> spec_effective_interval ToLower et species)) \<and>
      (fst (TrackEvent ToLower et species eventType now now') \<longrightarrow>
         lastEvent (snd (snd (TrackEvent ToLower et species eventType now now')))
           (ToLower (ToLower species)) eventType = Some now' \<and>
         (\<forall>k ty. k \<noteq> ToLower (ToLower species) \<or> ty \<noteq> eventType \<longrightarrow>
            lastEvent (snd (snd (TrackEvent ToLower et species eventType now now'))) k ty =
            lastEvent et k ty)) \<and>
      (\<not> fst (TrackEvent ToLower et species eventType now now') \<longrightarrow>
         snd (snd (TrackEvent ToLower et species eventType now now')) = et) \<and>
      (fst (snd (TrackEvent ToLower et species eventType now now')) \<noteq> [] \<longleftrightarrow>
         (\<exists>n. override_interval ToLower et species = Some n \<and> n < 0))"
  proof (intro allI impI, elim conjE)
    fix h
    assume h: "Handlers et eventType = Some h"
      and std: "BehaviorFunc h = StandardEventBehavior"
      and fits: "\<forall>n. override_interval ToLower et species = Some n \<longrightarrow> n \<le> 9223372036"
    show "(fst (TrackEvent ToLower et species eventType now now') \<longleftrightarrow>
         lastEvent et (ToLower (ToLower species)) eventType = None \<or>
         (\<exists>last. lastEvent et (ToLower (ToLower species)) eventType = Some last \<and>
                 time_Sub now last \<ge> spec_effective_interval ToLower et species)) \<and>
      (fst (TrackEvent ToLower et species eventType now now') \<longrightarrow>
         lastEvent (snd (snd (TrackEvent ToLower et species eventType now now')))
           (ToLower (ToLower species)) eventType = Some now' \<and>
         (\<forall>k ty. k \<noteq> ToLower (ToLower species) \<or> ty \<noteq> eventType \<longrightarrow>
            lastEvent (snd (snd (TrackEvent ToLower et species eventType now now'))) k ty =
            lastEvent et k ty)) \<and>
      (\<not> fst (TrackEvent ToLower et species eventType now now') \<longrightarrow>
         snd (snd (TrackEvent ToLower et species eventType now now')) = et) \<and>
      (fst (snd (TrackEvent ToLower et species eventType now now')) \<noteq> [] \<longleftrightarrow>
         (\<exists>n. override_interval ToLower et species = Some n \<and> n < 0))"
      by (rule TrackEvent_standard[OF h std fits])
  qed
next
  show "\<forall>interval speciesConfigs.
      eventType \<in> {DatabaseSave, LogToFile, SendNotification, BirdWeatherSubmit, MQTTPublish,
                   SSEBroadcast} \<longrightarrow>
      (\<exists>h. Handlers (NewEventTrackerWithConfig ToLower interval speciesConfigs) eventType = Some h \<and>
           Handlers (NewEventTracker ToLower interval) eventType = Some h \<and>
           BehaviorFunc h = StandardEventBehavior \<and> LastEventTime h = Map.empty)"
    by (auto simp: NewEventTrackerWithConfig_def NewEventTracker_def initEventTracker_handlers
        NewEventHandler_def)
next
  show "\<forall>ty h. Handlers et ty = Some h \<longrightarrow>
      (\<exists>h'. Handlers (snd (snd (TrackEvent ToLower et species eventType now now'))) ty = Some h' \<and>
            BehaviorFunc h' = BehaviorFunc h)"
    using TrackEvent_keeps_handlers by blast
qed

theorem TrackEvent_rule_witness:
  "DatabaseSave \<in> {DatabaseSave, LogToFile, SendNotification, BirdWeatherSubmit, MQTTPublish,
                   SSEBroadcast} \<and>
   (\<exists>h. Handlers sample_tracker DatabaseSave = Some h \<and> BehaviorFunc h = StandardEventBehavior) \<and>
   override_interval asciiToLower sample_tracker ''ROBIN'' = Some 10 \<and>
   asciiToLower (asciiToLower ''ROBIN'') = ''robin'' \<and>
   fst (TrackEvent asciiToLower sample_tracker ''ROBIN'' DatabaseSave 100 101) \<and>
   lastEvent (snd (snd (TrackEvent asciiToLower sample_tracker ''ROBIN'' DatabaseSave 100 101)))
     ''robin'' DatabaseSave = Some 101 \<and>
   Handlers sample_tracker 6 = None \<and>
   TrackEvent asciiToLower sample_tracker ''ROBIN'' 6 100 101 = (False, [], sample_tracker)"
proof -
  note r = TrackEvent_rule [of sample_tracker DatabaseSave asciiToLower "''ROBIN''" 100 101]
  have d: "DatabaseSave \<in> {DatabaseSave, LogToFile, SendNotification, BirdWeatherSubmit,
      MQTTPublish, SSEBroadcast}"
    by simp
  obtain h where h: "Handlers sample_tracker DatabaseSave = Some h"
    and std: "BehaviorFunc h = StandardEventBehavior"
    using r [THEN conjunct2, THEN conjunct2, THEN conjunct1, rule_format, OF d]
    unfolding sample_tracker_def by blast
  have ov: "override_interval asciiToLower sample_tracker ''ROBIN'' = Some 10"
    by code_simp
  have fits: "\<forall>n. override_interval asciiToLower sample_tracker ''ROBIN'' = Some n \<longrightarrow> n \<le> 9223372036"
    by (simp add: ov)
  have k: "asciiToLower (asciiToLower ''ROBIN'') = ''robin''"
    by code_simp
  have none: "lastEvent sample_tracker ''robin'' DatabaseSave = None"
    by code_simp
  have nh: "Handlers sample_tracker 6 = None"
    by (simp add: sample_tracker_def NewEventTrackerWithConfig_def initEventTracker_def
        DatabaseSave_def LogToFile_def SendNotification_def BirdWeatherSubmit_def
        MQTTPublish_def SSEBroadcast_def)
  have a: "fst (TrackEvent asciiToLower sample_tracker ''ROBIN'' DatabaseSave 100 101) \<and>
      lastEvent (snd (snd (TrackEvent asciiToLower sample_tracker ''ROBIN'' DatabaseSave 100 101)))
        ''robin'' DatabaseSave = Some 101"
    using r [THEN conjunct2, THEN conjunct1] h std fits none unfolding k by blast
  have b: "TrackEvent asciiToLower sample_tracker ''ROBIN'' 6 100 101 = (False, [], sample_tracker)"
    using TrackEvent_rule [of sample_tracker 6 asciiToLower "''ROBIN''" 100 101] nh by blast
  show ?thesis using d h std ov k a b nh by blast
qed

text \<open>
  Claim C3 as stated fails on a tracker built by \<open>NewEventTrackerWithConfig\<close>, for the
  declared event type \<open>DatabaseSave\<close>: an override of 9223372037 seconds is positive, yet
  \<open>time.Duration(interval) * time.Second\<close> wraps to a negative duration, and a second event
  two nanoseconds after the first, far less than the override, is accepted.  It also
  fails where no handler is registered for the event type: no time is recorded for the
  species, and \<open>TrackEvent\<close> returns false.
\<close>
theorem TrackEvent_claim_fails:
  "override_interval asciiToLower sample_tracker ''owl'' = Some 9223372037 \<and>
   seconds 9223372037 < 0 \<and>
   lastEvent (snd (snd (TrackEvent asciiToLower sample_tracker ''owl'' DatabaseSave 100 101)))
     ''owl'' DatabaseSave = Some 101 \<and>
   102 - 101 < 9223372037 * Second \<and>
   fst (TrackEvent asciiToLower (snd (snd (TrackEvent asciiToLower sample_tracker ''owl'' DatabaseSave 100 101)))
          ''owl'' DatabaseSave 102 103) \<and>
   lastEvent sample_tracker ''robin'' 6 = None \<and>
   \<not> fst (TrackEvent asciiToLower sample_tracker ''Robin'' 6 100 101)"
  by code_simp
section \<open>Properties of the capture ring buffer\<close>

subsection \<open>Allocation\<close>

lemma sdiv_nonneg: "0 \<le> a \<Longrightarrow> 0 < b \<Longrightarrow> (a::int) sdiv b = a div b"
  by (simp add: signed_divide_int_def sgn_if)

lemma alignedBufferSize_exact:
  assumes "0 < d" "0 < sr" "0 < bps" and small: "((d * sr * bps + 2047) div 2048) * 2048 \<le> 2 ^ 30"
  shows "alignedBufferSize d sr bps = ((d * sr * bps + 2047) div 2048) * 2048"
proof -
  have p: "0 < d * sr * bps" using assms by simp
  have "d * sr * bps + 2047 < ((d * sr * bps + 2047) div 2048) * 2048 + 2048"
    using div_mult_mod_eq[of "d * sr * bps + 2047" 2048]
      pos_mod_bound[of 2048 "d * sr * bps + 2047"] by linarith
  then have ub: "d * sr * bps \<le> 2 ^ 30" using small by simp
  have "1 \<le> bps" using assms by simp
  then have "d * sr * 1 \<le> d * sr * bps"
    using assms by (intro mult_left_mono) simp_all
  then have ub2: "d * sr \<le> 2 ^ 30" using ub by simp
  have p2: "0 < d * sr" using assms by simp
  have 1: "int64 (d * sr) = d * sr" using p2 ub2 by (intro int64_id) simp_all
  have 2: "int64 (d * sr * bps) = d * sr * bps" using p ub by (intro int64_id) simp_all
  have 3: "int64 (d * sr * bps + 2047) = d * sr * bps + 2047" using p ub by (intro int64_id) simp_all
  have 4: "(d * sr * bps + 2047) sdiv 2048 = (d * sr * bps + 2047) div 2048"
    using p by (intro sdiv_nonneg) simp_all
  have nn: "0 \<le> ((d * sr * bps + 2047) div 2048) * 2048"
    using p by (simp add: pos_imp_zdiv_nonneg_iff)
  have 5: "int64 (((d * sr * bps + 2047) div 2048) * 2048) = ((d * sr * bps + 2047) div 2048) * 2048"
    using nn small by (intro int64_id) simp_all
  show ?thesis
    by (simp only: alignedBufferSize_def Let_def 1 2 3 4 5)
qed


lemma IfNeeded_existing:
  "captureBuffers st src \<noteq> None \<Longrightarrow>
   AllocateCaptureBufferIfNeeded acquire d sr bps src st = (None, st)"
  by (simp add: AllocateCaptureBufferIfNeeded_def)

lemma allocateTimes_existing:
  "captureBuffers st src \<noteq> None \<Longrightarrow>
   allocateTimes k acquire d sr bps src st = (replicate k None, st)"
  by (induction k) (simp_all add: IfNeeded_existing)

lemma IfNeeded_fresh:
  assumes "0 < d" "0 < sr" "0 < bps" "src \<noteq> []"
    and small: "((d * sr * bps + 2047) div 2048) * 2048 \<le> 2 ^ 30"
    and fresh: "captureBuffers st src = None"
  shows "AllocateCaptureBufferIfNeeded acquire d sr bps src st =
     (None,
      st\<lparr>buffersCreated := buffersCreated st + 1,
         captureBuffers := (captureBuffers st)(src \<mapsto>
           \<lparr>data = replicate (nat (((d * sr * bps + 2047) div 2048) * 2048)) 0, writeIndex = 0,
            sampleRate = sr, bytesPerSample = bps,
            bufferSize = ((d * sr * bps + 2047) div 2048) * 2048,
            bufferDuration = int64 (Second * d), startTime = zeroTime,
            initialized = False, source = src\<rparr>),
         registry := map_option (\<lambda>r. acquire r src) (registry st)\<rparr>)"
proof -
  have a: "alignedBufferSize d sr bps = ((d * sr * bps + 2047) div 2048) * 2048"
    using assms by (intro alignedBufferSize_exact)
  have nn: "0 \<le> ((d * sr * bps + 2047) div 2048) * 2048"
    using assms by (simp add: pos_imp_zdiv_nonneg_iff)
  have le: "\<not> ((d * sr * bps + 2047) div 2048) * 2048 > 2 ^ 30" using small by simp
  show ?thesis
    using assms(1-4) fresh nn le
    by (simp add: AllocateCaptureBufferIfNeeded_def allocateCaptureBufferInternal_def
        NewCaptureBuffer_def a Let_def)
qed

text \<open>
  Claim C7.  For strictly positive \<open>durationSeconds\<close>, \<open>sampleRate\<close> and \<open>bytesPerSample\<close>,
  a non-empty source whose aligned buffer size (the product rounded up to a multiple of
  2048) is at most 1 GiB and that has no buffer yet, and \<open>k \<ge> 1\<close>: each of \<open>k\<close> calls of
  \<open>AllocateCaptureBufferIfNeeded\<close> returns nil, the state after the \<open>k\<close> calls is the state
  after the first, exactly one buffer has been created, and the buffer map has gained
  one buffer, of the aligned size, for the source.
\<close>
theorem allocate_idempotent:
  assumes "0 < d" "0 < sr" "0 < bps" "src \<noteq> []"
    and small: "((d * sr * bps + 2047) div 2048) * 2048 \<le> 2 ^ 30"
    and fresh: "captureBuffers st src = None"
    and k: "1 \<le> k"
  shows "fst (allocateTimes k acquire d sr bps src st) = replicate k None \<and>
         snd (allocateTimes k acquire d sr bps src st) =
           snd (AllocateCaptureBufferIfNeeded acquire d sr bps src st) \<and>
         buffersCreated (snd (allocateTimes k acquire d sr bps src st)) = buffersCreated st + 1 \<and>
         (\<exists>cb. captureBuffers (snd (allocateTimes k acquire d sr bps src st)) =
                  (captureBuffers st)(src \<mapsto> cb) \<and>
               bufferSize cb = ((d * sr * bps + 2047) div 2048) * 2048 \<and>
               int (length (data cb)) = bufferSize cb \<and> bufferSize cb \<le> 2 ^ 30)"
proof -
  obtain j where j: "k = Suc j" using k by (cases k) simp_all
  let ?st1 = "snd (AllocateCaptureBufferIfNeeded acquire d sr bps src st)"
  note first = IfNeeded_fresh[OF assms(1-4) small fresh, of acquire]
  have ex: "captureBuffers ?st1 src \<noteq> None" by (simp add: first)
  have nn: "0 \<le> ((d * sr * bps + 2047) div 2048) * 2048"
    using assms by (simp add: pos_imp_zdiv_nonneg_iff)
  have run: "allocateTimes k acquire d sr bps src st = (replicate k None, ?st1)"
    unfolding j using allocateTimes_existing[OF ex, of j acquire d sr bps]
    by (simp add: first)
  let ?cb = "\<lparr>data = replicate (nat (((d * sr * bps + 2047) div 2048) * 2048)) 0, writeIndex = 0,
            sampleRate = sr, bytesPerSample = bps,
            bufferSize = ((d * sr * bps + 2047) div 2048) * 2048,
            bufferDuration = int64 (Second * d), startTime = zeroTime,
            initialized = False, source = src\<rparr>"
  have cb: "captureBuffers ?st1 = (captureBuffers st)(src \<mapsto> ?cb) \<and>
               bufferSize ?cb = ((d * sr * bps + 2047) div 2048) * 2048 \<and>
               int (length (data ?cb)) = bufferSize ?cb \<and> bufferSize ?cb \<le> 2 ^ 30"
    using nn small by (simp add: first)
  have "\<exists>cb. captureBuffers ?st1 = (captureBuffers st)(src \<mapsto> cb) \<and>
               bufferSize cb = ((d * sr * bps + 2047) div 2048) * 2048 \<and>
               int (length (data cb)) = bufferSize cb \<and> bufferSize cb \<le> 2 ^ 30"
    using cb by (rule exI [of _ ?cb])
  moreover have "buffersCreated ?st1 = buffersCreated st + 1" by (simp add: first)
  ultimately show ?thesis
    unfolding run by simp
qed


theorem allocate_idempotent_witness:
  "fst (allocateTimes 3 (\<lambda>r s. Suc r) 1 100 2 ''mic'' emptyCaptureState) = replicate 3 None \<and>
   snd (allocateTimes 3 (\<lambda>r s. Suc r) 1 100 2 ''mic'' emptyCaptureState) =
     snd (AllocateCaptureBufferIfNeeded (\<lambda>r s. Suc r) 1 100 2 ''mic'' emptyCaptureState) \<and>
   buffersCreated (snd (allocateTimes 3 (\<lambda>r s. Suc r) 1 100 2 ''mic'' emptyCaptureState)) =
     buffersCreated emptyCaptureState + 1"
proof -
  have fresh: "captureBuffers emptyCaptureState ''mic'' = None"
    by (simp add: emptyCaptureState_def)
  have small: "(((1::int) * 100 * 2 + 2047) div 2048) * 2048 \<le> 2 ^ 30"
    by simp
  have "(0::int) < 1" "(0::int) < 100" "(0::int) < 2" "''mic'' \<noteq> []" "(1::nat) \<le> 3"
    by simp_all
  from allocate_idempotent [OF this(1-4) small fresh this(5), of "\<lambda>r s. Suc r"]
  show ?thesis by blast
qed

text \<open>
  Outside the range of the claim: a product that wraps to a negative size passes the 1 GiB
  check, and \<open>make\<close> panics.
\<close>
lemma allocate_wrapped_size_panics:
  "fst (AllocateCaptureBufferIfNeeded (\<lambda>r s. Suc r) 4294967296 2147483648 1 ''mic''
          emptyCaptureState) = Some (MakeSlicePanic (- 9223372036854773760))"
  by code_simp

subsection \<open>Reading a segment\<close>

















text \<open>
  In the other direction: on a buffer never written to, \<open>start_time\<close> is the zero time,
  both offsets of a present-day window saturate at the greatest duration, and the call
  fails although the window is after \<open>start_time\<close> and 3 seconds long.
\<close>
lemma ReadSegment_unwritten_buffer:
  "startTime (sample_buffer\<lparr>startTime := zeroTime\<rparr>) < 0 \<and>
   ReadSegment truncSeconds 0 3 [(sample_buffer\<lparr>startTime := zeroTime\<rparr>, 11 * Second)] =
     Some (Inl InvalidTimes)"
  by code_simp
section \<open>Properties of the command executor\<close>

lemma isValidParamName_spec: "isValidParamName name \<longleftrightarrow> list_all spec_name_char name"
  by (induction name) (auto simp: spec_name_char_def)

lemma validateCommandPath_Inr:
  assumes "validateCommandPath rt c = Inr p"
  shows "p = Clean rt c \<and> IsAbs rt p \<and>
         (\<exists>mode. Stat rt p = Inr mode \<and> (windows rt \<or> and mode 73 \<noteq> 0))"
  using assms
  by (auto simp: validateCommandPath_def Let_def split: if_splits sum.splits)

lemma validateCommandPath_relative:
  "\<not> IsAbs rt (Clean rt c) \<Longrightarrow>
   validateCommandPath rt c = Inl (CategoryValidation, AbsolutePathRequired)"
  by (simp add: validateCommandPath_def Let_def)

lemma buildArguments_Inr:
  "buildArguments rt params note keys = Inr args \<Longrightarrow> list_all isValidParamName keys"
  by (induction keys arbitrary: args) (auto simp: Let_def split: if_splits sum.splits)

lemma buildArguments_Inl:
  "\<not> list_all isValidParamName keys \<Longrightarrow>
   \<exists>k. buildArguments rt params note keys = Inl (CategoryValidation, InvalidParameterName k)"
  by (induction keys) (auto simp: Let_def split: sum.splits)

lemma buildSafeArguments_Inr:
  assumes "buildSafeArguments rt params note = Inr args"
  shows "\<forall>name \<in> fst ` set params. list_all spec_name_char name"
  using buildArguments_Inr[OF assms[unfolded buildSafeArguments_def]]
  by (auto simp: list_all_iff isValidParamName_spec)

lemma buildSafeArguments_Inl:
  assumes "\<exists>name \<in> fst ` set params. \<not> list_all spec_name_char name"
  shows "\<exists>k. buildSafeArguments rt params note = Inl (CategoryValidation, InvalidParameterName k)"
proof -
  have "\<not> list_all isValidParamName (sort (remdups (map fst params)))"
    using assms by (auto simp: list_all_iff isValidParamName_spec)
  then show ?thesis unfolding buildSafeArguments_def by (rule buildArguments_Inl)
qed

lemma getCleanEnvironment_whitelist:
  "getCleanEnvironment rt = map (\<lambda>n. n @ ''='' @ Getenv rt n) (whitelist rt)"
  by (simp add: getCleanEnvironment_def whitelist_def)

lemma ExecuteContext_rejects_validation:
  "ExecuteContext rt a d = Rejected e \<Longrightarrow> fst e = CategoryValidation"
  by (auto simp: ExecuteContext_def split: option.splits sum.splits)

text \<open>
  Claim C5, as the code has it.  When \<open>ExecuteContext\<close> starts a command, its path is the
  cleaned command, it is absolute, \<open>os.Stat\<close> found the file, and, except on Windows
  where the mode is not examined, the file has an execute bit; every parameter name
  consists of characters of \<open>[A-Za-z0-9_-]\<close>; and the child's environment holds exactly
  \<open>PATH\<close>, \<open>TEMP\<close> and \<open>TMP\<close> (and \<open>SystemRoot\<close> on Windows).  A command whose cleaned
  path is not absolute (the empty command among them, which \<open>filepath.Clean\<close> turns into
  \<open>.\<close>) and a parameter name with any other character are refused with a validation
  error before anything is started; every refusal is a validation error.
\<close>
theorem ExecuteContext_safety:
  "(ExecuteContext rt a d = Spawned sp \<longrightarrow>
       spawnPath sp = Clean rt (Command a) \<and> IsAbs rt (spawnPath sp) \<and>
       (\<exists>mode. Stat rt (spawnPath sp) = Inr mode \<and> (windows rt \<or> and mode 73 \<noteq> 0)) \<and>
       (\<forall>name \<in> fst ` set (Params a). list_all spec_name_char name) \<and>
       spawnEnv sp = map (\<lambda>n. n @ ''='' @ Getenv rt n) (whitelist rt)) \<and>
   (\<not> IsAbs rt (Clean rt (Command a)) \<longrightarrow>
       (\<exists>e. ExecuteContext rt a d = Rejected (CategoryValidation, e))) \<and>
   (Command a = [] \<and> Clean rt [] = ''.'' \<and> \<not> IsAbs rt ''.'' \<longrightarrow>
       (\<exists>e. ExecuteContext rt a d = Rejected (CategoryValidation, e))) \<and>
   ((\<exists>name \<in> fst ` set (Params a). \<not> list_all spec_name_char name) \<longrightarrow>
       (\<exists>e. ExecuteContext rt a d = Rejected (CategoryValidation, e))) \<and>
   (\<forall>e. ExecuteContext rt a d = Rejected e \<longrightarrow> fst e = CategoryValidation)"
proof -
  have 1: "spawnPath sp = Clean rt (Command a) \<and> IsAbs rt (spawnPath sp) \<and>
       (\<exists>mode. Stat rt (spawnPath sp) = Inr mode \<and> (windows rt \<or> and mode 73 \<noteq> 0)) \<and>
       (\<forall>name \<in> fst ` set (Params a). list_all spec_name_char name) \<and>
       spawnEnv sp = map (\<lambda>n. n @ ''='' @ Getenv rt n) (whitelist rt)"
    if s: "ExecuteContext rt a d = Spawned sp"
  proof -
    from s obtain detection cmdPath args where d: "d = Some detection"
      and p: "validateCommandPath rt (Command a) = Inr cmdPath"
      and b: "buildSafeArguments rt (Params a) (Note detection) = Inr args"
      and sp: "sp = \<lparr>spawnPath = cmdPath, spawnArgs = args, spawnEnv = getCleanEnvironment rt\<rparr>"
      by (auto simp: ExecuteContext_def split: option.splits sum.splits)
    show ?thesis
      using validateCommandPath_Inr[OF p] buildSafeArguments_Inr[OF b]
      by (auto simp: sp getCleanEnvironment_whitelist)
  qed
  have 2: "\<exists>e. ExecuteContext rt a d = Rejected (CategoryValidation, e)"
    if "\<not> IsAbs rt (Clean rt (Command a))"
    using validateCommandPath_relative[OF that]
    by (cases d) (simp_all add: ExecuteContext_def)
  have 3: "\<exists>e. ExecuteContext rt a d = Rejected (CategoryValidation, e)"
    if bad: "\<exists>name \<in> fst ` set (Params a). \<not> list_all spec_name_char name"
  proof (cases d)
    case None
    then show ?thesis by (simp add: ExecuteContext_def)
  next
    case (Some detection)
    obtain k where "buildSafeArguments rt (Params a) (Note detection) =
        Inl (CategoryValidation, InvalidParameterName k)"
      using buildSafeArguments_Inl[OF bad] by blast
    then show ?thesis using Some
      by (cases "validateCommandPath rt (Command a)") (simp_all add: ExecuteContext_def)
  qed
  show ?thesis
    using 1 2 3 ExecuteContext_rejects_validation[of rt a d] by auto
qed


theorem ExecuteContext_safety_witness:
  "ExecuteContext sample_unix sample_command (Some (sample_detection ''European Robin'' (9 / 10))) =
     Spawned \<lparr>spawnPath = ''/usr/local/bin/notify.sh'',
              spawnArgs = [''--CommonName=\"European Robin\"'', ''--confidence=90''],
              spawnEnv = [''PATH=/usr/bin:/bin'', ''TEMP='', ''TMP='']\<rparr> \<and>
   ''/usr/local/bin/notify.sh'' = Clean sample_unix (Command sample_command) \<and>
   IsAbs sample_unix ''/usr/local/bin/notify.sh'' \<and>
   [''PATH=/usr/bin:/bin'', ''TEMP='', ''TMP=''] =
     map (\<lambda>n. n @ ''='' @ Getenv sample_unix n) (whitelist sample_unix)"
proof -
  have h: "ExecuteContext sample_unix sample_command
             (Some (sample_detection ''European Robin'' (9 / 10))) =
     Spawned \<lparr>spawnPath = ''/usr/local/bin/notify.sh'',
              spawnArgs = [''--CommonName=\"European Robin\"'', ''--confidence=90''],
              spawnEnv = [''PATH=/usr/bin:/bin'', ''TEMP='', ''TMP='']\<rparr>"
    by code_simp
  show ?thesis
    using ExecuteContext_safety [of sample_unix sample_command
        "Some (sample_detection ''European Robin'' (9 / 10))"
        "\<lparr>spawnPath = ''/usr/local/bin/notify.sh'',
              spawnArgs = [''--CommonName=\"European Robin\"'', ''--confidence=90''],
              spawnEnv = [''PATH=/usr/bin:/bin'', ''TEMP='', ''TMP='']\<rparr>"] h
    by simp
qed

text \<open>
  Claim C5 as stated fails on Windows: the file has no execute bit (mode \<open>0o666\<close>, and
  \<open>0o666 & 0o111 = 0\<close>), and the command is started.
\<close>
theorem ExecuteContext_windows_unchecked:
  "windows sample_windows \<and>
   Stat sample_windows sample_windows_path = Inr 438 \<and>
   and (438 :: 32 word) 73 = 0 \<and>
   ExecuteContext sample_windows \<lparr>Command = sample_windows_path, Params = []\<rparr>
       (Some (sample_detection ''Robin'' (9 / 10))) =
     Spawned \<lparr>spawnPath = sample_windows_path, spawnArgs = [],
              spawnEnv = getCleanEnvironment sample_windows\<rparr>"
  by code_simp

text \<open>Elsewhere a file without an execute bit is refused.\<close>
lemma ExecuteContext_unix_not_executable:
  "ExecuteContext sample_unix \<lparr>Command = ''/etc/motd'', Params = []\<rparr>
       (Some (sample_detection ''Robin'' (9 / 10))) = Rejected (CategoryValidation, NotExecutable)"
  by code_simp

section \<open>Properties of the event bus\<close>










text \<open>
  Claim C10.  When the bus is running with a consumer and its deduplicator answers that
  the event is not to be processed, \<open>TryPublish\<close> returns true, the error channel is as
  it was (nothing is enqueued, so no consumer receives the event), the suppressed-events
  counter has grown by one, and the dropped-events and received-events counters have not
  moved.
\<close>
theorem TryPublish_suppressed:
  assumes "flag" "busInitialized b" "busRunning b" "consumers b \<noteq> []"
    and "deduplicator b = Some d" and "\<not> fst (sp d e)"
  shows "fst (TryPublish sp flag (Some b) e) \<and>
         (\<exists>b'. snd (TryPublish sp flag (Some b) e) = Some b' \<and>
               errorEventChan b' = errorEventChan b \<and>
               EventsSuppressed (stats b') = EventsSuppressed (stats b) + 1 \<and>
               EventsDropped (stats b') = EventsDropped (stats b) \<and>
               EventsReceived (stats b') = EventsReceived (stats b))"
  using assms
  by (auto simp: TryPublish_def Let_def split: prod.splits)

theorem TryPublish_suppressed_witness:
  "fst (sample_ShouldProcess [''disk full''] ''disk full'') = False \<and>
   fst (TryPublish sample_ShouldProcess True (Some sample_bus) ''disk full'') \<and>
   (\<exists>b'. snd (TryPublish sample_ShouldProcess True (Some sample_bus) ''disk full'') = Some b' \<and>
         errorEventChan b' = errorEventChan sample_bus \<and>
         EventsSuppressed (stats b') = EventsSuppressed (stats sample_bus) + 1 \<and>
         EventsDropped (stats b') = EventsDropped (stats sample_bus) \<and>
         EventsReceived (stats b') = EventsReceived (stats sample_bus))"
proof -
  have dup: "\<not> fst (sample_ShouldProcess [''disk full''] ''disk full'')"
    by code_simp
  have d: "deduplicator sample_bus = Some [''disk full'']"
    by (simp add: sample_bus_def)
  have up: "busInitialized sample_bus" "busRunning sample_bus" "consumers sample_bus \<noteq> []"
    by (simp_all add: sample_bus_def)
  have t: "True" by simp
  show ?thesis
    using TryPublish_suppressed [where flag = True and b = sample_bus
        and d = "[''disk full'']" and sp = sample_ShouldProcess and e = "''disk full''",
        OF t up d dup] dup
    by simp
qed

section \<open>Properties of the composite action\<close>

lemma runActions_bounds:
  "e \<in> set (fst (runActions dl i t as)) \<Longrightarrow>
   (\<exists>j u. (e = Start j u \<or> e = Return j u) \<and> i \<le> j \<and> j < i + length as \<and> t \<le> u)"
proof (induction dl i t as rule: runActions.induct)
  case (1 deadline i t)
  then show ?case by simp
next
  case (2 deadline i t actions)
  then have "e \<in> set (fst (runActions deadline (Suc i) t actions))" by simp
  from "2.IH"[OF this] show ?case by auto
next
  case (3 deadline i t a actions)
  show ?case
  proof (cases "t + takes a > deadline")
    case True
    then show ?thesis using "3.prems" by auto
  next
    case False
    show ?thesis
    proof (cases "ending a")
      case Succeeds
      obtain tr r where run: "runActions deadline (Suc i) (t + takes a) actions = (tr, r)"
        by (cases "runActions deadline (Suc i) (t + takes a) actions")
      have "e = Start i t \<or> e = Return i (t + takes a) \<or> e \<in> set tr"
        using "3.prems" False Succeeds run by auto
      moreover have "\<exists>j u. (e = Start j u \<or> e = Return j u) \<and> Suc i \<le> j \<and>
          j < Suc i + length actions \<and> t + takes a \<le> u" if "e \<in> set tr"
        using "3.IH"[OF False Succeeds] that run by simp
      ultimately show ?thesis by auto
    next
      case Fails
      then show ?thesis using "3.prems" False by auto
    next
      case Panics
      then show ?thesis using "3.prems" False by auto
    qed
  qed
qed


lemma runActions_Start_bounds:
  assumes "Start j u \<in> set (fst (runActions dl i t as))"
  shows "i \<le> j" and "j < i + length as" and "t \<le> u"
  using runActions_bounds[OF assms] by auto

lemma runActions_Succeeds:
  assumes "\<not> t + takes a > dl" "ending a = Succeeds"
  shows "fst (runActions dl i t (Some a # as)) =
           Start i t # Return i (t + takes a) # fst (runActions dl (Suc i) (t + takes a) as)"
    and "snd (runActions dl i t (Some a # as)) = snd (runActions dl (Suc i) (t + takes a) as)"
  using assms by (simp_all add: split_beta)

lemma runActions_stopped:
  assumes "t + takes a > dl \<or> ending a \<noteq> Succeeds"
  shows "set (fst (runActions dl i t (Some a # as))) \<subseteq> {Start i t, Return i (t + takes a)}"
    and "error_at (snd (runActions dl i t (Some a # as))) = Some i"
    and "Start i t \<in> set (fst (runActions dl i t (Some a # as)))"
  using assms by (cases "ending a"; auto simp: error_at_def)+

lemma runActions_ordered:
  assumes "Start j tj \<in> set (fst (runActions dl i t as))"
    and "Start k tk \<in> set (fst (runActions dl i t as))" and "k < j"
  shows "\<exists>tk'. tk \<le> tk' \<and> tk' \<le> tj \<and>
           occurs_after (Return k tk') (Start j tj) (fst (runActions dl i t as))"
  using assms
proof (induction dl i t as rule: runActions.induct)
  case (1 deadline i t)
  then show ?case by simp
next
  case (2 deadline i t actions)
  then show ?case by simp
next
  case (3 deadline i t a actions)
  show ?case
  proof (cases "t + takes a > deadline \<or> ending a \<noteq> Succeeds")
    case True
    have "j = i" "k = i"
      using runActions_stopped(1)[OF True, of i actions] "3.prems"(1,2) by auto
    then show ?thesis using "3.prems"(3) by simp
  next
    case False
    then have nt: "\<not> t + takes a > deadline" and ok: "ending a = Succeeds" by simp_all
    let ?tr = "fst (runActions deadline (Suc i) (t + takes a) actions)"
    note tr0 = runActions_Succeeds(1)[OF nt ok, of i actions]
    have ki: "i \<le> k" using runActions_Start_bounds(1)[OF "3.prems"(2)] .
    then have "i < j" using "3.prems"(3) by simp
    then have j_in: "Start j tj \<in> set ?tr" using "3.prems"(1) unfolding tr0 by simp
    have tj: "t + takes a \<le> tj" using runActions_Start_bounds(3)[OF j_in] .
    show ?thesis
    proof (cases "k = i")
      case True
      then have "tk = t"
        using "3.prems"(2) runActions_Start_bounds(1)[of k tk deadline "Suc i" "t + takes a" actions]
        unfolding tr0 by auto
      then have le: "tk \<le> t + takes a" by simp
      have oa: "occurs_after (Return k (t + takes a)) (Start j tj)
          (fst (runActions deadline i t (Some a # actions)))"
        unfolding tr0 True using j_in by (simp add: occurs_after_def)
      show ?thesis using le tj oa by blast
    next
      case False
      then have k_in: "Start k tk \<in> set ?tr" using "3.prems"(2) unfolding tr0 by simp
      obtain tk' where tk': "tk \<le> tk'" "tk' \<le> tj"
        and oa: "occurs_after (Return k tk') (Start j tj) ?tr"
        using "3.IH"[OF nt ok j_in k_in "3.prems"(3)] by (auto simp: split_beta)
      have "occurs_after (Return k tk') (Start j tj)
          (fst (runActions deadline i t (Some a # actions)))"
        unfolding tr0 using oa False by (simp add: occurs_after_def)
      then show ?thesis using tk' by blast
    qed
  qed
qed

lemma runActions_error_started:
  assumes "error_at (snd (runActions dl i t as)) = Some m"
  shows "i \<le> m \<and> (\<exists>v. Start m v \<in> set (fst (runActions dl i t as)))"
  using assms
proof (induction dl i t as rule: runActions.induct)
  case (1 deadline i t)
  then show ?case by (simp add: error_at_def)
next
  case (2 deadline i t actions)
  then show ?case by auto
next
  case (3 deadline i t a actions)
  show ?case
  proof (cases "t + takes a > deadline \<or> ending a \<noteq> Succeeds")
    case True
    have "m = i" using runActions_stopped(2)[OF True, of i actions] "3.prems" by simp
    then show ?thesis using runActions_stopped(3)[OF True, of i actions] by auto
  next
    case False
    then have nt: "\<not> t + takes a > deadline" and ok: "ending a = Succeeds" by simp_all
    let ?r = "runActions deadline (Suc i) (t + takes a) actions"
    have e: "error_at (snd ?r) = Some m"
      using "3.prems" unfolding runActions_Succeeds(2)[OF nt ok] .
    have "Suc i \<le> m \<and> (\<exists>v. Start m v \<in> set (fst ?r))"
      using "3.IH"[OF nt ok e] by (auto simp: split_beta)
    then show ?thesis unfolding runActions_Succeeds(1)[OF nt ok] by auto
  qed
qed

lemma runActions_error_last:
  assumes "error_at (snd (runActions dl i t as)) = Some m"
    and "Start j u \<in> set (fst (runActions dl i t as))"
  shows "j \<le> m"
  using assms
proof (induction dl i t as rule: runActions.induct)
  case (1 deadline i t)
  then show ?case by simp
next
  case (2 deadline i t actions)
  then show ?case by simp
next
  case (3 deadline i t a actions)
  show ?case
  proof (cases "t + takes a > deadline \<or> ending a \<noteq> Succeeds")
    case True
    have "j = i" using runActions_stopped(1)[OF True, of i actions] "3.prems"(2) by auto
    moreover have "m = i" using runActions_stopped(2)[OF True, of i actions] "3.prems"(1) by simp
    ultimately show ?thesis by simp
  next
    case False
    then have nt: "\<not> t + takes a > deadline" and ok: "ending a = Succeeds" by simp_all
    let ?r = "runActions deadline (Suc i) (t + takes a) actions"
    have e: "error_at (snd ?r) = Some m"
      using "3.prems"(1) unfolding runActions_Succeeds(2)[OF nt ok] .
    show ?thesis
    proof (cases "j = i")
      case True
      then show ?thesis using runActions_error_started[OF e] by simp
    next
      case False
      then have "Start j u \<in> set (fst ?r)"
        using "3.prems"(2) unfolding runActions_Succeeds(1)[OF nt ok] by simp
      then show ?thesis using "3.IH"[OF nt ok e] by (auto simp: split_beta)
    qed
  qed
qed

lemma runActions_misbehaving:
  assumes "Start m u \<in> set (fst (runActions dl i t as))"
    and "as ! (m - i) = Some a" and "ending a \<noteq> Succeeds \<or> u + takes a > dl"
  shows "error_at (snd (runActions dl i t as)) = Some m"
  using assms
proof (induction dl i t as rule: runActions.induct)
  case (1 deadline i t)
  then show ?case by simp
next
  case (2 deadline i t actions)
  have s: "Start m u \<in> set (fst (runActions deadline (Suc i) t actions))"
    using "2.prems"(1) by simp
  have "Suc i \<le> m" using runActions_Start_bounds(1)[OF s] .
  then have "actions ! (m - Suc i) = Some a"
    using "2.prems"(2) by (simp add: nth_Cons split: nat.splits) (metis Suc_diff_Suc Suc_le_lessD nat.inject)
  from "2.IH"[OF s this "2.prems"(3)] show ?case by simp
next
  case (3 deadline i t b actions)
  show ?case
  proof (cases "t + takes b > deadline \<or> ending b \<noteq> Succeeds")
    case True
    have "m = i" using runActions_stopped(1)[OF True, of i actions] "3.prems"(1) by auto
    then show ?thesis using runActions_stopped(2)[OF True, of i actions] by simp
  next
    case False
    then have nt: "\<not> t + takes b > deadline" and ok: "ending b = Succeeds" by simp_all
    let ?r = "runActions deadline (Suc i) (t + takes b) actions"
    have "m \<noteq> i"
    proof
      assume mi: "m = i"
      then have "a = b" using "3.prems"(2) by simp
      moreover have "u = t"
        using "3.prems"(1) mi
          runActions_Start_bounds(1)[of m u deadline "Suc i" "t + takes b" actions]
        unfolding runActions_Succeeds(1)[OF nt ok] by auto
      ultimately show False using "3.prems"(3) nt ok by simp
    qed
    then have s: "Start m u \<in> set (fst ?r)"
      using "3.prems"(1) unfolding runActions_Succeeds(1)[OF nt ok] by simp
    have "Suc i \<le> m" using runActions_Start_bounds(1)[OF s] .
    then have "actions ! (m - Suc i) = Some a"
      using "3.prems"(2) by (simp add: nth_Cons split: nat.splits) (metis Suc_diff_Suc Suc_le_lessD nat.inject)
    then have "error_at (snd ?r) = Some m"
      using "3.IH"[OF nt ok s _ "3.prems"(3)] by (auto simp: split_beta)
    then show ?thesis unfolding runActions_Succeeds(2)[OF nt ok] .
  qed
qed


lemma elapsed_0 [simp]: "elapsed actions 0 = 0"
  by (simp add: elapsed_def)

lemma elapsed_Suc [simp]:
  "elapsed (x # xs) (Suc k) = (case x of None \<Rightarrow> 0 | Some a \<Rightarrow> takes a) + elapsed xs k"
  by (simp add: elapsed_def)

lemma goes_well_Suc:
  "goes_well deadline t (x # xs) (Suc k) =
     goes_well deadline (t + (case x of None \<Rightarrow> 0 | Some a \<Rightarrow> takes a)) xs k"
  by (simp add: goes_well_def add.assoc split: option.splits)

lemma runActions_live:
  assumes "j < length actions" "actions ! j = Some a" "\<forall>k<j. goes_well deadline t actions k"
  shows "Start (i0 + j) (t + elapsed actions j) \<in> set (fst (runActions deadline i0 t actions)) \<and>
     (t + elapsed actions j + takes a \<le> deadline \<longrightarrow>
        Return (i0 + j) (t + elapsed actions j + takes a) \<in> set (fst (runActions deadline i0 t actions)))"
  using assms
proof (induction deadline i0 t actions arbitrary: j rule: runActions.induct)
  case (1 deadline i t)
  then show ?case by simp
next
  case (2 deadline i t actions)
  obtain j' where j: "j = Suc j'" using "2.prems"(2) by (cases j) simp_all
  have gw: "\<forall>k<j'. goes_well deadline t actions k"
    using "2.prems"(3) unfolding j by (auto simp: goes_well_Suc dest: Suc_mono)
  show ?case
    using "2.IH"[of j'] "2.prems"(1,2) gw unfolding j by simp
next
  case (3 deadline i t b actions)
  show ?case
  proof (cases j)
    case 0
    then have ab: "a = b" using "3.prems"(2) by simp
    show ?thesis
      unfolding 0 ab by (simp add: case_prod_unfold Let_def split: ending.splits)
  next
    case (Suc j')
    have "goes_well deadline t (Some b # actions) 0"
      using "3.prems"(3) Suc by simp
    then have b: "ending b = Succeeds" "t + takes b \<le> deadline"
      by (simp_all add: goes_well_def)
    have gw: "\<forall>k<j'. goes_well deadline (t + takes b) actions k"
      using "3.prems"(3) unfolding Suc by (auto simp: goes_well_Suc dest: Suc_mono)
    have nt: "\<not> deadline < t + takes b" using b by simp
    note IH = "3.IH"[OF nt b(1), of j']
    show ?thesis
      using IH "3.prems"(1,2) gw b unfolding Suc
      by (simp add: add.assoc case_prod_unfold Let_def)
  qed
qed

lemma runActions_completes:
  assumes "\<forall>k<length actions. goes_well deadline t actions k"
  shows "snd (runActions deadline i0 t actions) = Completed"
  using assms
proof (induction deadline i0 t actions rule: runActions.induct)
  case (1 deadline i t)
  then show ?case by simp
next
  case (2 deadline i t actions)
  have gw: "\<forall>k<length actions. goes_well deadline t actions k"
    using "2.prems" by (auto simp: goes_well_Suc dest: Suc_mono)
  show ?case using "2.IH" gw by simp
next
  case (3 deadline i t b actions)
  have "goes_well deadline t (Some b # actions) 0"
    using "3.prems" by simp
  then have b: "ending b = Succeeds" "t + takes b \<le> deadline"
    by (simp_all add: goes_well_def)
  have gw: "\<forall>k<length actions. goes_well deadline (t + takes b) actions k"
    using "3.prems" by (auto simp: goes_well_Suc dest: Suc_mono)
  have nt: "\<not> deadline < t + takes b" using b by simp
  show ?case
    using "3.IH"[OF nt b(1)] gw b by (simp add: case_prod_unfold Let_def)
qed


lemma runActions_once:
  "distinct (fst (runActions dl i t as)) \<and>
   (\<forall>j u v. Start j u \<in> set (fst (runActions dl i t as)) \<and>
       Start j v \<in> set (fst (runActions dl i t as)) \<longrightarrow> u = v)"
proof (induction dl i t as rule: runActions.induct)
  case (1 deadline i t)
  show ?case by simp
next
  case (2 deadline i t actions)
  then show ?case by simp
next
  case (3 deadline i t a actions)
  show ?case
  proof (cases "t + takes a > deadline \<or> ending a \<noteq> Succeeds")
    case True
    then show ?thesis by (cases "ending a") auto
  next
    case False
    then have ok: "\<not> t + takes a > deadline" "ending a = Succeeds" by simp_all
    let ?tr = "fst (runActions deadline (Suc i) (t + takes a) actions)"
    have later: "Suc i \<le> j" if "Start j u \<in> set ?tr \<or> Return j u \<in> set ?tr" for j u
      using that runActions_bounds[of _ deadline "Suc i" "t + takes a" actions] by fastforce
    have n1: "Start i u \<notin> set ?tr" for u using later[of i u] by auto
    have n2: "Return i u \<notin> set ?tr" for u using later[of i u] by auto
    have IH: "distinct ?tr"
      "\<And>j u v. Start j u \<in> set ?tr \<Longrightarrow> Start j v \<in> set ?tr \<Longrightarrow> u = v"
      using "3.IH"[OF ok] by blast+
    have d: "distinct (Start i t # Return i (t + takes a) # ?tr)"
      using IH(1) n1 n2 by simp
    have u: "u = v" if "Start j u \<in> set (Start i t # Return i (t + takes a) # ?tr)"
      "Start j v \<in> set (Start i t # Return i (t + takes a) # ?tr)" for j u v
      using that n1 IH(2) by auto
    show ?thesis
      unfolding runActions_Succeeds(1)[OF ok] using d u by blast
  qed
qed

text \<open>
  Claim C9, on the model of \<open>Execute\<close> drawn from the specification.

  \<^item> Sub-actions run in declared order: when sub-actions \<open>i < j\<close> both start, \<open>i\<close> has
    returned before \<open>j\<close> starts (its return precedes the start of \<open>j\<close> in the trace, and is
    not later in time).
  \<^item> When a started sub-action fails, panics or overruns the composite's timeout, the
    composite ends with an error at that sub-action and no later sub-action starts.
  \<^item> A nil composite, a nil \<open>Actions\<close> slice and an empty one complete at once, starting
    nothing.
  \<^item> Sub-actions do run: a sub-action starts, as soon as the ones before it have returned,
    whenever each of those has succeeded before the deadline, and it returns when it is
    done before the deadline; when every sub-action succeeds before the deadline the
    composite completes.
  \<^item> No sub-action starts twice, and no event occurs twice in the trace.
\<close>
theorem CompositeAction_sequential:
  "(\<forall>i j ti tj. i < j \<and> Start i ti \<in> set (fst (Execute ca t0)) \<and>
        Start j tj \<in> set (fst (Execute ca t0)) \<longrightarrow>
      (\<exists>ti'. ti \<le> ti' \<and> ti' \<le> tj \<and>
             occurs_after (Return i ti') (Start j tj) (fst (Execute ca t0)))) \<and>
   (\<forall>c actions i a u. ca = Some c \<and> Actions c = Some actions \<and> actions ! i = Some a \<and>
        Start i u \<in> set (fst (Execute ca t0)) \<and>
        (ending a \<noteq> Succeeds \<or> u + takes a > t0 + effectiveTimeout c) \<longrightarrow>
      error_at (snd (Execute ca t0)) = Some i \<and>
      (\<forall>j v. Start j v \<in> set (fst (Execute ca t0)) \<longrightarrow> j \<le> i)) \<and>
   (ca = None \<or> (\<exists>c. ca = Some c \<and> (Actions c = None \<or> Actions c = Some [])) \<longrightarrow>
      Execute ca t0 = ([], Completed)) \<and>
   (\<forall>c actions i a. ca = Some c \<and> Actions c = Some actions \<and> i < length actions \<and>
        actions ! i = Some a \<and>
        (\<forall>k<i. goes_well (t0 + effectiveTimeout c) t0 actions k) \<longrightarrow>
      Start i (t0 + elapsed actions i) \<in> set (fst (Execute ca t0)) \<and>
      (t0 + elapsed actions i + takes a \<le> t0 + effectiveTimeout c \<longrightarrow>
         Return i (t0 + elapsed actions i + takes a) \<in> set (fst (Execute ca t0)))) \<and>
   (\<forall>c actions. ca = Some c \<and> Actions c = Some actions \<and>
        (\<forall>k<length actions. goes_well (t0 + effectiveTimeout c) t0 actions k) \<longrightarrow>
      snd (Execute ca t0) = Completed) \<and>
   distinct (fst (Execute ca t0)) \<and>
   (\<forall>i u v. Start i u \<in> set (fst (Execute ca t0)) \<and> Start i v \<in> set (fst (Execute ca t0)) \<longrightarrow>
      u = v)"
proof -
  have 1: "\<exists>ti'. ti \<le> ti' \<and> ti' \<le> tj \<and>
             occurs_after (Return i ti') (Start j tj) (fst (Execute ca t0))"
    if a: "i < j" "Start i ti \<in> set (fst (Execute ca t0))"
      "Start j tj \<in> set (fst (Execute ca t0))" for i j ti tj
  proof -
    obtain c actions where c: "ca = Some c" "Actions c = Some actions"
      using a(2) by (auto simp: Execute_def split: option.splits)
    have E: "Execute ca t0 = runActions (t0 + effectiveTimeout c) 0 t0 actions"
      using c by (simp add: Execute_def)
    show ?thesis
      using a unfolding E by (intro runActions_ordered) simp_all
  qed
  have 2: "error_at (snd (Execute ca t0)) = Some i \<and>
      (\<forall>j v. Start j v \<in> set (fst (Execute ca t0)) \<longrightarrow> j \<le> i)"
    if a: "ca = Some c" "Actions c = Some actions" "actions ! i = Some a"
      "Start i u \<in> set (fst (Execute ca t0))"
      "ending a \<noteq> Succeeds \<or> u + takes a > t0 + effectiveTimeout c" for c actions i a u
  proof -
    have E: "Execute ca t0 = runActions (t0 + effectiveTimeout c) 0 t0 actions"
      using a(1,2) by (simp add: Execute_def)
    have s: "Start i u \<in> set (fst (runActions (t0 + effectiveTimeout c) 0 t0 actions))"
      using a(4) unfolding E .
    have n: "actions ! (i - 0) = Some a" using a(3) by simp
    have err: "error_at (snd (Execute ca t0)) = Some i"
      unfolding E by (rule runActions_misbehaving[OF s n a(5)])
    have "j \<le> i" if "Start j v \<in> set (fst (Execute ca t0))" for j v
      using err that unfolding E by (rule runActions_error_last)
    then show ?thesis using err by blast
  qed
  have 3: "Execute ca t0 = ([], Completed)"
    if "ca = None \<or> (\<exists>c. ca = Some c \<and> (Actions c = None \<or> Actions c = Some []))"
    using that by (auto simp: Execute_def)
  have 4: "Start i (t0 + elapsed actions i) \<in> set (fst (Execute ca t0)) \<and>
      (t0 + elapsed actions i + takes a \<le> t0 + effectiveTimeout c \<longrightarrow>
         Return i (t0 + elapsed actions i + takes a) \<in> set (fst (Execute ca t0)))"
    if a: "ca = Some c" "Actions c = Some actions" "i < length actions" "actions ! i = Some a"
      "\<forall>k<i. goes_well (t0 + effectiveTimeout c) t0 actions k" for c actions i a
  proof -
    have E: "Execute ca t0 = runActions (t0 + effectiveTimeout c) 0 t0 actions"
      using a(1,2) by (simp add: Execute_def)
    show ?thesis
      unfolding E using runActions_live[OF a(3,4,5), of 0] by simp
  qed
  have 5: "snd (Execute ca t0) = Completed"
    if a: "ca = Some c" "Actions c = Some actions"
      "\<forall>k<length actions. goes_well (t0 + effectiveTimeout c) t0 actions k" for c actions
  proof -
    have E: "Execute ca t0 = runActions (t0 + effectiveTimeout c) 0 t0 actions"
      using a(1,2) by (simp add: Execute_def)
    show ?thesis unfolding E by (rule runActions_completes[OF a(3)])
  qed
  have once: "distinct (fst (Execute ca t0)) \<and>
      (\<forall>i u v. Start i u \<in> set (fst (Execute ca t0)) \<and> Start i v \<in> set (fst (Execute ca t0)) \<longrightarrow>
         u = v)"
  proof (cases "\<exists>c actions. ca = Some c \<and> Actions c = Some actions")
    case True
    then obtain c actions where c: "ca = Some c" "Actions c = Some actions" by blast
    have E: "Execute ca t0 = runActions (t0 + effectiveTimeout c) 0 t0 actions"
      using c by (simp add: Execute_def)
    show ?thesis unfolding E by (rule runActions_once)
  next
    case False
    then have "Execute ca t0 = ([], Completed)"
      by (auto simp: Execute_def split: option.splits)
    then show ?thesis by simp
  qed
  have c1: "\<forall>i j ti tj. i < j \<and> Start i ti \<in> set (fst (Execute ca t0)) \<and>
        Start j tj \<in> set (fst (Execute ca t0)) \<longrightarrow>
      (\<exists>ti'. ti \<le> ti' \<and> ti' \<le> tj \<and>
             occurs_after (Return i ti') (Start j tj) (fst (Execute ca t0)))"
    using 1 by blast
  have c2: "\<forall>c actions i a u. ca = Some c \<and> Actions c = Some actions \<and> actions ! i = Some a \<and>
        Start i u \<in> set (fst (Execute ca t0)) \<and>
        (ending a \<noteq> Succeeds \<or> u + takes a > t0 + effectiveTimeout c) \<longrightarrow>
      error_at (snd (Execute ca t0)) = Some i \<and>
      (\<forall>j v. Start j v \<in> set (fst (Execute ca t0)) \<longrightarrow> j \<le> i)"
    using 2 by blast
  have c4: "\<forall>c actions i a. ca = Some c \<and> Actions c = Some actions \<and> i < length actions \<and>
        actions ! i = Some a \<and>
        (\<forall>k<i. goes_well (t0 + effectiveTimeout c) t0 actions k) \<longrightarrow>
      Start i (t0 + elapsed actions i) \<in> set (fst (Execute ca t0)) \<and>
      (t0 + elapsed actions i + takes a \<le> t0 + effectiveTimeout c \<longrightarrow>
         Return i (t0 + elapsed actions i + takes a) \<in> set (fst (Execute ca t0)))"
    using 4 by blast
  have c5: "\<forall>c actions. ca = Some c \<and> Actions c = Some actions \<and>
        (\<forall>k<length actions. goes_well (t0 + effectiveTimeout c) t0 actions k) \<longrightarrow>
      snd (Execute ca t0) = Completed"
    using 5 by blast
  show ?thesis
    using c1 c2 3 c4 c5 once by (intro conjI; blast)
qed


theorem CompositeAction_sequential_witness:
  "Start 0 1000 \<in> set (fst (Execute (Some sample_panicking) 1000)) \<and>
   Start 1 1050 \<in> set (fst (Execute (Some sample_panicking) 1000)) \<and>
   (\<exists>ti'. 1000 \<le> ti' \<and> ti' \<le> 1050 \<and>
          occurs_after (Return 0 ti') (Start 1 1050) (fst (Execute (Some sample_panicking) 1000))) \<and>
   error_at (snd (Execute (Some sample_panicking) 1000)) = Some 1 \<and>
   Execute None 1000 = ([], Completed) \<and>
   Start 2 1300 \<in> set (fst (Execute (Some sample_composite) 1000)) \<and>
   Return 2 1350 \<in> set (fst (Execute (Some sample_composite) 1000)) \<and>
   snd (Execute (Some sample_composite) 1000) = Completed"
proof -
  have s0: "Start 0 1000 \<in> set (fst (Execute (Some sample_panicking) 1000))"
    by (simp add: Execute_def sample_panicking_def effectiveTimeout_def CompositeActionTimeout_def)
  have s1: "Start 1 1050 \<in> set (fst (Execute (Some sample_panicking) 1000))"
    by (simp add: Execute_def sample_panicking_def effectiveTimeout_def CompositeActionTimeout_def)
  have acts: "Actions sample_panicking =
      Some [Some \<lparr>takes = 50, ending = Succeeds\<rparr>, Some \<lparr>takes = 10, ending = Panics\<rparr>,
            Some \<lparr>takes = 50, ending = Succeeds\<rparr>]"
    by (simp add: sample_panicking_def)
  have nth: "[Some \<lparr>takes = 50, ending = Succeeds\<rparr>, Some \<lparr>takes = 10, ending = Panics\<rparr>,
            Some \<lparr>takes = 50, ending = Succeeds\<rparr>] ! 1 = Some \<lparr>takes = 10, ending = Panics\<rparr>"
    by simp
  have bad: "ending \<lparr>takes = 10, ending = Panics\<rparr> \<noteq> Succeeds"
    by simp
  have lt: "(0::nat) < 1" by simp
  note t = CompositeAction_sequential [of "Some sample_panicking" 1000]
  have o: "\<exists>ti'. 1000 \<le> ti' \<and> ti' \<le> 1050 \<and>
          occurs_after (Return 0 ti') (Start 1 1050) (fst (Execute (Some sample_panicking) 1000))"
    by (rule t [THEN conjunct1, rule_format, of 0 1 1000 1050]) (intro conjI lt s0 s1)
  have e: "error_at (snd (Execute (Some sample_panicking) 1000)) = Some 1"
    by (rule t [THEN conjunct2, THEN conjunct1, rule_format, THEN conjunct1,
          of sample_panicking _ _ "\<lparr>takes = 10, ending = Panics\<rparr>" 1050])
      (rule conjI refl acts nth s1 disjI1 bad)+
  have n: "Execute None 1000 = ([], Completed)"
    by (rule CompositeAction_sequential [of None 1000, THEN conjunct2, THEN conjunct2,
          THEN conjunct1, rule_format])
      (rule disjI1, rule refl)
  let ?as = "[Some \<lparr>takes = 300, ending = Succeeds\<rparr>, None, Some \<lparr>takes = 50, ending = Succeeds\<rparr>]"
  have acts2: "Actions sample_composite = Some ?as"
    by (simp add: sample_composite_def)
  have dl: "effectiveTimeout sample_composite = 30000"
    by (simp add: sample_composite_def effectiveTimeout_def CompositeActionTimeout_def)
  have el: "elapsed ?as 0 = 0" "elapsed ?as 1 = 300" "elapsed ?as 2 = 300"
    by (simp_all add: elapsed_def eval_nat_numeral)
  have gw: "goes_well (1000 + effectiveTimeout sample_composite) 1000 ?as k" if "k < 3" for k
  proof -
    have "k = 0 \<or> k = 1 \<or> k = 2" using that by auto
    then show ?thesis
      unfolding dl by (elim disjE) (simp_all add: goes_well_def el)
  qed
  have gw2: "\<forall>k<2. goes_well (1000 + effectiveTimeout sample_composite) 1000 ?as k"
    using gw by simp
  have gw3: "\<forall>k<length ?as. goes_well (1000 + effectiveTimeout sample_composite) 1000 ?as k"
    using gw by simp
  note u = CompositeAction_sequential [of "Some sample_composite" 1000]
  have live: "Start 2 (1000 + elapsed ?as 2) \<in> set (fst (Execute (Some sample_composite) 1000)) \<and>
      (1000 + elapsed ?as 2 + takes \<lparr>takes = 50, ending = Succeeds\<rparr>
         \<le> 1000 + effectiveTimeout sample_composite \<longrightarrow>
       Return 2 (1000 + elapsed ?as 2 + takes \<lparr>takes = 50, ending = Succeeds\<rparr>)
         \<in> set (fst (Execute (Some sample_composite) 1000)))"
    by (rule u [THEN conjunct2, THEN conjunct2, THEN conjunct2, THEN conjunct1, rule_format,
          of sample_composite ?as 2])
      (use acts2 gw2 in simp)
  have l1: "Start 2 1300 \<in> set (fst (Execute (Some sample_composite) 1000))"
    using live by (simp add: el)
  have l2: "Return 2 1350 \<in> set (fst (Execute (Some sample_composite) 1000))"
    using live by (simp add: el dl)
  have fin: "snd (Execute (Some sample_composite) 1000) = Completed"
    by (rule u [THEN conjunct2, THEN conjunct2, THEN conjunct2, THEN conjunct2, THEN conjunct1,
          rule_format, of sample_composite ?as])
      (use acts2 gw3 in simp)
  show ?thesis by (intro conjI s0 s1 o e n l1 l2 fin)
qed

text \<open>The scenarios of the tests: 300 ms then 50 ms; and a timeout of 320 ms.\<close>
lemma CompositeAction_persist_then_broadcast:
  "Execute (Some sample_composite) 0 =
     ([Start 0 0, Return 0 300, Start 2 300, Return 2 350], Completed)"
  by (simp add: Execute_def sample_composite_def effectiveTimeout_def CompositeActionTimeout_def)

lemma CompositeAction_times_out:
  "Execute (Some (sample_composite\<lparr>Timeout := Some 320\<rparr>)) 0 =
     ([Start 0 0, Return 0 300, Start 2 300], TimedOut 2)"
  by (simp add: Execute_def sample_composite_def effectiveTimeout_def CompositeActionTimeout_def)

end
